theory Spec2Isabelle
  imports Complex_Main "HOL-Library.Word" "HOL-Library.Sublist"
begin

unbundle bit_operations_syntax

section \<open>Deduplication with MinHash and LSH (src/dedup_minhash.py)\<close>

text \<open>
  The script reads a table of documents, drops every row whose \<open>sha256\<close> was already seen,
  computes a MinHash signature of the remaining rows over word 3-shingles, and groups each
  row with an exemplar returned by a \<open>MinHashLSH\<close> index, or makes it an exemplar of its own.
  One row per group is kept.

  \<open>MinHash\<close> and \<open>MinHashLSH\<close> come from the datasketch package, which the script imports.
  They are modelled here as that package defines them; what the package fixes by hashing,
  by its seeded random table, by numerical search and by the iteration order of a Python
  set is taken as a parameter (record \<open>datasketch\<close> below), so that every statement holds
  for each value of these parameters.
\<close>

subsection \<open>Errors\<close>

datatype error = ValueError string

subsection \<open>Rows of the input table\<close>

text \<open>
  A row as \<open>df.to_dicts()\<close> yields it. The columns \<open>sha256\<close> and \<open>text\<close> are read with
  \<open>item['...']\<close>; \<open>text_clean\<close> is read with \<open>item.get\<close> and may be absent (\<open>None\<close>).
  A text is a string of code points below 256, one \<open>char\<close> for each code point.
\<close>

record doc =
  sha256 :: string
  "text" :: string
  text_clean :: "string option"

subsection \<open>Python string operations used by \<open>create_minhash\<close>\<close>

text \<open>
  The code points below 256 on which \<open>str.split()\<close> splits: the ASCII whitespace, the
  separators U+001C to U+001F, U+0085 and U+00A0.
\<close>

definition isspace :: "char \<Rightarrow> bool" where
  "isspace c = (c \<in> set [CHR '' '', CHR 0x09, CHR 0x0A, CHR 0x0B, CHR 0x0C, CHR 0x0D,
                            CHR 0x1C, CHR 0x1D, CHR 0x1E, CHR 0x1F, CHR 0x85, CHR 0xA0])"

text \<open>
  \<open>str.lower()\<close> on these code points: \<open>A\<close> to \<open>Z\<close>, and U+00C0 to U+00DE without the
  multiplication sign U+00D7, move up by 32.
\<close>

definition lower_char :: "char \<Rightarrow> char" where
  "lower_char c =
     (if ((65::nat) \<le> of_char c \<and> of_char c \<le> (90::nat)) \<or>
         ((192::nat) \<le> of_char c \<and> of_char c \<le> (222::nat) \<and> of_char c \<noteq> (215::nat))
      then char_of (of_char c + (32::nat)) else c)"

definition str_lower :: "string \<Rightarrow> string" where
  "str_lower s = map lower_char s"

text \<open>\<open>s.split()\<close>: the maximal runs of non-whitespace characters, in order.\<close>

fun split_from :: "string \<Rightarrow> string \<Rightarrow> string list" where
  "split_from cur [] = (if cur = [] then [] else [cur])"
| "split_from cur (c # cs) =
     (if isspace c then (if cur = [] then split_from [] cs else cur # split_from [] cs)
      else split_from (cur @ [c]) cs)"

definition str_split :: "string \<Rightarrow> string list" where
  "str_split s = split_from [] s"

text \<open>\<open>sep.join(ws)\<close>.\<close>

fun str_join :: "string \<Rightarrow> string list \<Rightarrow> string" where
  "str_join sep [] = []"
| "str_join sep [w] = w"
| "str_join sep (w # ws) = w @ sep @ str_join sep ws"

text \<open>
  \<open>s.encode('utf8')\<close>: a code point below 128 is one byte, the others are two.
\<close>

definition encode_utf8 :: "string \<Rightarrow> string" where
  "encode_utf8 s =
     concat (map (\<lambda>c. if of_char c < (128::nat) then [c]
                       else [char_of (192 + of_char c div (64::nat)),
                             char_of (128 + of_char c mod (64::nat))]) s)"

subsection \<open>Parameters of the datasketch package\<close>

text \<open>
  \<^item> \<open>hashfunc\<close>: the 32-bit hash of a byte string (\<open>sha1_hash32\<close>);
  \<^item> \<open>permutation i\<close>: the pair \<open>(a, b)\<close> of the \<open>i\<close>-th permutation, drawn from the
    generator seeded with 1;
  \<^item> \<open>optimal_param t n\<close>: the pair \<open>(b, r)\<close> of bands and rows that the numerical search
    \<open>_optimal_param\<close> returns for threshold \<open>t\<close> and \<open>n\<close> permutations;
  \<^item> \<open>first_of cs\<close>: for the candidate set whose members, in order of discovery, are \<open>cs\<close>,
    the position in \<open>cs\<close> of the member that the iteration of the set yields first
    (read modulo the number of members).
\<close>

record datasketch =
  hashfunc :: "string \<Rightarrow> 32 word"
  permutation :: "nat \<Rightarrow> 64 word \<times> 64 word"
  optimal_param :: "real \<Rightarrow> nat \<Rightarrow> nat \<times> nat"
  first_of :: "nat list \<Rightarrow> nat"

subsection \<open>MinHash\<close>

definition mersenne_prime :: "64 word" where
  "mersenne_prime = 2 ^ 61 - 1"

definition max_hash :: "64 word" where
  "max_hash = 2 ^ 32 - 1"

text \<open>A MinHash object is used only through its array \<open>hashvalues\<close> of unsigned 64-bit integers.\<close>

type_synonym minhash = "64 word list"

text \<open>\<open>MinHash(num_perm)\<close>: every hash value starts at \<open>_max_hash\<close>.\<close>

definition MinHash :: "nat \<Rightarrow> minhash" where
  "MinHash num_perm = replicate num_perm max_hash"

text \<open>
  \<open>m.update(b)\<close>: \<open>hv = hashfunc(b)\<close>, \<open>phv = ((a * hv + b) % _mersenne_prime) & _max_hash\<close>
  in unsigned 64-bit arithmetic, \<open>hashvalues = minimum(phv, hashvalues)\<close>.
\<close>

definition permuted :: "datasketch \<Rightarrow> 64 word \<Rightarrow> nat \<Rightarrow> 64 word" where
  "permuted D hv i =
     (((fst (permutation D i) * hv + snd (permutation D i)) mod mersenne_prime) AND max_hash)"

definition update :: "datasketch \<Rightarrow> string \<Rightarrow> minhash \<Rightarrow> minhash" where
  "update D b m =
     (let hv = ucast (hashfunc D b)
      in map (\<lambda>i. min (permuted D hv i) (m ! i)) [0..<length m])"

text \<open>
  \<open>range(len(words)-2)\<close> is empty when there are fewer than three words; the truncating
  subtraction of \<open>nat\<close> gives the same.
\<close>

definition shingles :: "string list \<Rightarrow> string list" where
  "shingles words = map (\<lambda>i. str_join '' '' (take 3 (drop i words))) [0..<length words - 2]"

definition create_minhash :: "datasketch \<Rightarrow> string \<Rightarrow> nat \<Rightarrow> minhash" where
  "create_minhash D txt num_perm =
     (let m = MinHash num_perm;
          words = str_split (str_lower txt)
      in fold (update D) (map encode_utf8 (shingles words)) m)"

subsection \<open>MinHashLSH\<close>

text \<open>
  The index keeps one hash table per band. A band's key is the byte image of the slice of
  the hash values in that band, which is one-to-one, so the slice itself is the key. A
  bucket is the set of the keys inserted under it, kept here as a list without repetition.
\<close>

type_synonym hashtable = "(64 word list \<times> nat list) list"

record MinHashLSH =
  lsh_h :: nat
  lsh_b :: nat
  lsh_r :: nat
  hashranges :: "(nat \<times> nat) list"
  hashtables :: "hashtable list"
  lsh_keys :: "nat list"

text \<open>
  The constructor: the threshold is checked against the closed interval from 0 to 1, the
  number of permutations against 2, and the number of bands found against 2.
\<close>

definition MinHashLSH_init :: "datasketch \<Rightarrow> real \<Rightarrow> nat \<Rightarrow> error + MinHashLSH" where
  "MinHashLSH_init D threshold num_perm =
     (if threshold > 1 \<or> threshold < 0 then Inl (ValueError ''threshold must be in [0.0, 1.0]'')
      else if num_perm < 2 then Inl (ValueError ''Too few permutation functions'')
      else let (b, r) = optimal_param D threshold num_perm
           in if b < 2 then Inl (ValueError ''The number of bands are too small (b < 2)'')
              else Inr \<lparr> lsh_h = num_perm, lsh_b = b, lsh_r = r,
                         hashranges = map (\<lambda>i. (i * r, (i + 1) * r)) [0..<b],
                         hashtables = replicate b [],
                         lsh_keys = [] \<rparr>)"

text \<open>\<open>xs[start:stop]\<close> for indices that are not negative.\<close>

definition slice :: "nat \<Rightarrow> nat \<Rightarrow> 'a list \<Rightarrow> 'a list" where
  "slice start stop xs = take (stop - start) (drop start xs)"

text \<open>\<open>hashtable.get(H)\<close>: the bucket under \<open>H\<close>, empty when there is none.\<close>

definition table_get :: "hashtable \<Rightarrow> 64 word list \<Rightarrow> nat list" where
  "table_get t H = (case map_of t H of None \<Rightarrow> [] | Some ks \<Rightarrow> ks)"

definition set_add :: "nat \<Rightarrow> nat list \<Rightarrow> nat list" where
  "set_add k c = (if k \<in> set c then c else c @ [k])"

text \<open>\<open>hashtable.insert(H, key)\<close>: add the key to the bucket under \<open>H\<close>.\<close>

fun table_insert :: "64 word list \<Rightarrow> nat \<Rightarrow> hashtable \<Rightarrow> hashtable" where
  "table_insert H k [] = [(H, [k])]"
| "table_insert H k ((H', ks) # t) =
     (if H' = H then (H', set_add k ks) # t else (H', ks) # table_insert H k t)"

definition band_keys :: "MinHashLSH \<Rightarrow> minhash \<Rightarrow> 64 word list list" where
  "band_keys l m = map (\<lambda>(start, stop). slice start stop m) (hashranges l)"

text \<open>\<open>lsh.query(m)\<close>: the members of every bucket that a band of \<open>m\<close> falls into.\<close>

definition lsh_query :: "MinHashLSH \<Rightarrow> minhash \<Rightarrow> error + nat list" where
  "lsh_query l m =
     (if length m \<noteq> lsh_h l then Inl (ValueError ''Expecting minhash with different length'')
      else Inr (fold (\<lambda>(H, t) candidates. fold set_add (table_get t H) candidates)
                     (zip (band_keys l m) (hashtables l)) []))"

text \<open>\<open>lsh.insert(key, m)\<close>: the key goes into the bucket of every band.\<close>

definition lsh_insert :: "MinHashLSH \<Rightarrow> nat \<Rightarrow> minhash \<Rightarrow> error + MinHashLSH" where
  "lsh_insert l key m =
     (if length m \<noteq> lsh_h l then Inl (ValueError ''Expecting minhash with different length'')
      else if key \<in> set (lsh_keys l) then Inl (ValueError ''The given key already exists'')
      else Inr (l\<lparr> lsh_keys := lsh_keys l @ [key],
                   hashtables := map (\<lambda>(H, t). table_insert H key t)
                                     (zip (band_keys l m) (hashtables l)) \<rparr>))"

text \<open>
  \<open>result = lsh.query(m)\<close> is \<open>list(candidates)\<close>, the members of the candidate set in the
  order in which the set iterates; \<open>result[0]\<close> is the member that comes first.
\<close>

definition list_first :: "datasketch \<Rightarrow> nat list \<Rightarrow> nat" where
  "list_first D cs = cs ! (first_of D cs mod length cs)"

subsection \<open>The loop of \<open>main\<close>\<close>

text \<open>\<open>d[k] = v\<close> on a dict kept in insertion order.\<close>

fun dict_set :: "nat \<Rightarrow> 'v \<Rightarrow> (nat \<times> 'v) list \<Rightarrow> (nat \<times> 'v) list" where
  "dict_set k v [] = [(k, v)]"
| "dict_set k v ((k', v') # d) = (if k' = k then (k', v) # d else (k', v') # dict_set k v d)"

text \<open>\<open>d[k].append(v)\<close> on a \<open>defaultdict(list)\<close>: a missing key is created with an empty list.\<close>

fun group_append :: "nat \<Rightarrow> nat \<Rightarrow> (nat \<times> nat list) list \<Rightarrow> (nat \<times> nat list) list" where
  "group_append k v [] = [(k, [v])]"
| "group_append k v ((k', g) # d) =
     (if k' = k then (k', g @ [v]) # d else (k', g) # group_append k v d)"

record state =
  lsh :: MinHashLSH
  sha256_seen :: "string set"
  minhashes :: "(nat \<times> minhash) list"
  near_dupe_groups :: "(nat \<times> nat list) list"
  exact_dupes :: int

definition item_text :: "doc \<Rightarrow> string" where
  "item_text item = (case text_clean item of Some t \<Rightarrow> t | None \<Rightarrow> text item)"

definition loop_body :: "datasketch \<Rightarrow> nat \<Rightarrow> doc \<Rightarrow> state \<Rightarrow> error + state" where
  "loop_body D idx item s =
     (let sha = sha256 item in
      if sha \<in> sha256_seen s then Inr (s\<lparr>exact_dupes := exact_dupes s + 1\<rparr>)
      else
        let m = create_minhash D (item_text item) 128;
            s1 = s\<lparr>sha256_seen := insert sha (sha256_seen s),
                   minhashes := dict_set idx m (minhashes s)\<rparr>
        in case lsh_query (lsh s1) m of
             Inl e \<Rightarrow> Inl e
           | Inr result \<Rightarrow>
               if result \<noteq> [] then
                 Inr (s1\<lparr>near_dupe_groups :=
                            group_append (list_first D result) idx (near_dupe_groups s1)\<rparr>)
               else
                 (case lsh_insert (lsh s1) idx m of
                    Inl e \<Rightarrow> Inl e
                  | Inr l \<Rightarrow>
                      Inr (s1\<lparr>lsh := l,
                              near_dupe_groups := group_append idx idx (near_dupe_groups s1)\<rparr>)))"

text \<open>\<open>for idx, item in enumerate(items)\<close>, from index \<open>idx\<close> on.\<close>

fun loop :: "datasketch \<Rightarrow> nat \<Rightarrow> doc list \<Rightarrow> state \<Rightarrow> error + state" where
  "loop D idx [] s = Inr s"
| "loop D idx (item # items) s =
     (case loop_body D idx item s of Inl e \<Rightarrow> Inl e | Inr s' \<Rightarrow> loop D (Suc idx) items s')"

subsection \<open>\<open>main\<close>\<close>

record stats =
  exact_duplicates :: int
  near_duplicates :: int
  unique_items :: int
  total_removed :: int

record outcome =
  total_input :: int
  unique_indices :: "nat list"
  df_deduped :: "doc list"
  report :: stats

definition init_state :: "MinHashLSH \<Rightarrow> state" where
  "init_state l = \<lparr> lsh = l, sha256_seen = {}, minhashes = [], near_dupe_groups = [],
                    exact_dupes = 0 \<rparr>"

text \<open>
  After the loop: \<open>min(group)\<close> of every group in the order of the dict, the counts, and the
  rows kept. Every group is created by an append, so \<open>min\<close> is never taken of an empty list.
\<close>

definition finish :: "doc list \<Rightarrow> state \<Rightarrow> outcome" where
  "finish items s =
     (let uniq = map (\<lambda>(k, group). min_list group) (near_dupe_groups s);
          near_dupes = int (length (minhashes s)) - int (length uniq)
      in \<lparr> total_input = int (length items),
           unique_indices = uniq,
           df_deduped = map (\<lambda>i. items ! i) uniq,
           report = \<lparr> exact_duplicates = exact_dupes s,
                      near_duplicates = near_dupes,
                      unique_items = int (length uniq),
                      total_removed = exact_dupes s + near_dupes \<rparr> \<rparr>)"

definition main :: "datasketch \<Rightarrow> real \<Rightarrow> doc list \<Rightarrow> error + outcome" where
  "main D threshold items =
     (case MinHashLSH_init D threshold 128 of
        Inl e \<Rightarrow> Inl e
      | Inr l \<Rightarrow>
          (case loop D 0 items (init_state l) of
             Inl e \<Rightarrow> Inl e
           | Inr s \<Rightarrow> Inr (finish items s)))"

subsection \<open>Notions used to state the properties\<close>

text \<open>
  \<^item> \<open>hits l m\<close>: the keys found in the buckets that the bands of \<open>m\<close> fall into, that is
    the members of \<open>lsh.query(m)\<close>;
  \<^item> \<open>lsh_ok n l\<close>: the index is well formed after \<open>n\<close> rows and every bucket holds at most
    one key; \<open>extends l l'\<close>: every occupied bucket of \<open>l\<close> is unchanged in \<open>l'\<close>;
  \<^item> \<open>first_seen items i\<close>: the test \<open>sha not in sha256_seen\<close> at row \<open>i\<close>;
    \<open>survivors items\<close>: the rows that pass it;
  \<^item> \<open>valid_config D t\<close>: what the constructor of the index accepts;
  \<^item> \<open>state_at D l items n\<close>: the variables of \<open>main\<close> after \<open>n\<close> passes of the loop;
    \<open>signature_of D items n\<close>: the signature computed for row \<open>n\<close>;
  \<^item> \<open>inserted D l items n\<close>: row \<open>n\<close> passes the exact stage and its query returns nothing,
    the condition under which \<open>main\<close> calls \<open>lsh.insert\<close> for it;
  \<^item> \<open>inv1\<close> and \<open>groups_ok\<close>: the invariants of the loop;
  \<^item> \<open>signature_row D txt i\<close>: the \<open>i\<close>-th value of the signature of \<open>txt\<close>, the minimum over
    its shingles of the permuted hash;
  \<^item> \<open>example_lib\<close>, \<open>lib_at_zero\<close>, \<open>band_lib\<close>, \<open>example_index\<close>, \<open>band_index\<close>, \<open>docs4\<close>,
    \<open>docs3\<close>, \<open>short2\<close>, \<open>band_docs\<close>: concrete parameters and inputs on which the
    statements are evaluated. \<open>band_lib\<close> has two bands of one row, with a hash and two
    permutations under which the first two signature values of the rows of \<open>band_docs\<close>
    are \<open>1, 2^32 - 3\<close>, then \<open>1, 0\<close>, then \<open>2, 0\<close>. \<open>lib_at_zero\<close> has the band
    search return the most bands and the fewest rows, which is what minimising the false
    negatives alone, as at threshold 0, gives.
\<close>

definition hits :: "MinHashLSH \<Rightarrow> minhash \<Rightarrow> nat set" where
  "hits l m = (\<Union>(H, t) \<in> set (zip (band_keys l m) (hashtables l)). set (table_get t H))"

definition lsh_ok :: "nat \<Rightarrow> MinHashLSH \<Rightarrow> bool" where
  "lsh_ok n l \<longleftrightarrow>
     lsh_h l = 128 \<and> length (hashranges l) = length (hashtables l) \<and> hashtables l \<noteq> [] \<and>
     (\<forall>k \<in> set (lsh_keys l). k < n) \<and>
     (\<forall>i < length (hashtables l). \<forall>H.
         length (table_get (hashtables l ! i) H) \<le> 1 \<and>
         set (table_get (hashtables l ! i) H) \<subseteq> set (lsh_keys l))"

definition extends :: "MinHashLSH \<Rightarrow> MinHashLSH \<Rightarrow> bool" where
  "extends l l' \<longleftrightarrow>
     hashranges l' = hashranges l \<and> length (hashtables l') = length (hashtables l) \<and>
     prefix (lsh_keys l) (lsh_keys l') \<and>
     (\<forall>i < length (hashtables l). \<forall>H.
         table_get (hashtables l ! i) H \<noteq> [] \<longrightarrow>
         table_get (hashtables l' ! i) H = table_get (hashtables l ! i) H)"

definition first_seen :: "doc list \<Rightarrow> nat \<Rightarrow> bool" where
  "first_seen items i \<longleftrightarrow> sha256 (items ! i) \<notin> sha256 ` set (take i items)"

definition survivors :: "doc list \<Rightarrow> nat list" where
  "survivors items = filter (first_seen items) [0..<length items]"

definition inv1 :: "datasketch \<Rightarrow> doc list \<Rightarrow> state \<Rightarrow> bool" where
  "inv1 D pre s \<longleftrightarrow>
     lsh_ok (length pre) (lsh s) \<and>
     sha256_seen s = sha256 ` set pre \<and>
     minhashes s = map (\<lambda>i. (i, create_minhash D (item_text (pre ! i)) 128)) (survivors pre) \<and>
     exact_dupes s = int (length pre) - int (length (survivors pre)) \<and>
     length (near_dupe_groups s) \<le> length (survivors pre) \<and>
     set (lsh_keys (lsh s)) \<subseteq> set (survivors pre)"

definition valid_config :: "datasketch \<Rightarrow> real \<Rightarrow> bool" where
  "valid_config D t \<longleftrightarrow> 0 \<le> t \<and> t \<le> 1 \<and> 2 \<le> fst (optimal_param D t 128)"

definition example_hash :: "string \<Rightarrow> 32 word" where
  "example_hash b = fold (\<lambda>c h. h * 31 + of_nat (of_char c)) b 7"

definition example_lib :: datasketch where
  "example_lib = \<lparr> hashfunc = example_hash,
                   permutation = (\<lambda>i. (of_nat (2 * i + 1), of_nat i)),
                   optimal_param = (\<lambda>t n. (32, n div 32)),
                   first_of = (\<lambda>cs. 0) \<rparr>"

definition docs4 :: "doc list" where
  "docs4 = [\<lparr>sha256 = ''h1'', text = ''the cat sat on the mat'', text_clean = None\<rparr>,
            \<lparr>sha256 = ''h1'', text = ''the cat sat on the mat'', text_clean = None\<rparr>,
            \<lparr>sha256 = ''h2'', text = ''the cat sat on the rug'', text_clean = None\<rparr>,
            \<lparr>sha256 = ''h3'', text = ''completely unrelated sentence about oceans'',
             text_clean = None\<rparr>]"

definition state_at :: "datasketch \<Rightarrow> MinHashLSH \<Rightarrow> doc list \<Rightarrow> nat \<Rightarrow> state" where
  "state_at D l items n =
     (case loop D 0 (take n items) (init_state l) of Inr s \<Rightarrow> s | Inl e \<Rightarrow> init_state l)"

definition signature_of :: "datasketch \<Rightarrow> doc list \<Rightarrow> nat \<Rightarrow> minhash" where
  "signature_of D items n = create_minhash D (item_text (items ! n)) 128"

definition inserted :: "datasketch \<Rightarrow> MinHashLSH \<Rightarrow> doc list \<Rightarrow> nat \<Rightarrow> bool" where
  "inserted D l items n \<longleftrightarrow>
     first_seen items n \<and> hits (lsh (state_at D l items n)) (signature_of D items n) = {}"

definition groups_ok :: "datasketch \<Rightarrow> MinHashLSH \<Rightarrow> doc list \<Rightarrow> nat \<Rightarrow> bool" where
  "groups_ok D l items n \<longleftrightarrow>
     map fst (near_dupe_groups (state_at D l items n)) = lsh_keys (lsh (state_at D l items n)) \<and>
     (\<forall>(k, g) \<in> set (near_dupe_groups (state_at D l items n)).
        g \<noteq> [] \<and> hd g = k \<and> (\<forall>x \<in> set (tl g). k < x \<and> x < n \<and> \<not> inserted D l items x))"

definition docs3 :: "doc list" where
  "docs3 = [\<lparr>sha256 = ''h1'', text = ''a'', text_clean = None\<rparr>,
            \<lparr>sha256 = ''h2'', text = ''b'', text_clean = None\<rparr>,
            \<lparr>sha256 = ''h2'', text = ''b'', text_clean = None\<rparr>]"

definition short2 :: "doc list" where
  "short2 = [\<lparr>sha256 = ''h1'', text = ''hello world'', text_clean = None\<rparr>,
             \<lparr>sha256 = ''h2'', text = ''good morning'', text_clean = None\<rparr>]"

definition lib_at_zero :: datasketch where
  "lib_at_zero = example_lib\<lparr>optimal_param := (\<lambda>t n. (n, 1))\<rparr>"

definition example_index :: MinHashLSH where
  "example_index = \<lparr> lsh_h = 128, lsh_b = 32, lsh_r = 4,
                      hashranges = map (\<lambda>i. (i * 4, (i + 1) * 4)) [0..<32],
                      hashtables = replicate 32 [],
                      lsh_keys = [] \<rparr>"






section \<open>Properties\<close>

lemma length_update: "length (update D b m) = length m"
  by (simp add: update_def)

lemma length_fold_update: "length (fold (update D) bs m) = length m"
  by (induction bs arbitrary: m) (simp_all add: length_update)

lemma length_create_minhash: "length (create_minhash D txt n) = n"
  by (simp add: create_minhash_def MinHash_def length_fold_update)

lemma shingles_short: "length ws < 3 \<Longrightarrow> shingles ws = []"
  by (simp add: shingles_def)

lemma create_minhash_short:
  "length (str_split (str_lower txt)) < 3 \<Longrightarrow> create_minhash D txt n = replicate n max_hash"
  by (simp add: create_minhash_def MinHash_def shingles_short)

lemma set_fold_set_add: "set (fold set_add ks c) = set ks \<union> set c"
  by (induction ks arbitrary: c) (auto simp: set_add_def)

lemma distinct_fold_set_add: "distinct c \<Longrightarrow> distinct (fold set_add ks c)"
  by (induction ks arbitrary: c) (auto simp: set_add_def)

lemma table_get_insert:
  "table_get (table_insert H k t) H' =
     (if H' = H then set_add k (table_get t H) else table_get t H')"
  by (induction t) (auto simp: table_get_def set_add_def)

lemma set_fold_buckets:
  "set (fold (\<lambda>(H, t) candidates. fold set_add (table_get t H) candidates) ps c) =
     set c \<union> (\<Union>(H, t) \<in> set ps. set (table_get t H))"
  by (induction ps arbitrary: c) (auto simp: set_fold_set_add)

lemma lsh_query_hits:
  "length m = lsh_h l \<Longrightarrow> \<exists>cs. lsh_query l m = Inr cs \<and> set cs = hits l m"
  by (simp add: lsh_query_def hits_def set_fold_buckets)

lemma lsh_query_Inr: "lsh_query l m = Inr cs \<Longrightarrow> set cs = hits l m"
  using lsh_query_hits [of m l] by (cases "length m = lsh_h l") (auto simp: lsh_query_def)

lemma length_band_keys: "length (band_keys l m) = length (hashranges l)"
  by (simp add: band_keys_def)

lemma hits_iff:
  "k \<in> hits l m \<longleftrightarrow>
     (\<exists>i. i < length (hashranges l) \<and> i < length (hashtables l) \<and>
          k \<in> set (table_get (hashtables l ! i) (band_keys l m ! i)))"
  unfolding hits_def set_zip length_band_keys by fastforce

lemma extends_refl: "extends l l"
  by (simp add: extends_def)

lemma extends_trans: "extends l1 l2 \<Longrightarrow> extends l2 l3 \<Longrightarrow> extends l1 l3"
  unfolding extends_def by (auto intro: prefix_order.trans)

lemma band_keys_extends: "extends l l' \<Longrightarrow> band_keys l' m = band_keys l m"
  by (simp add: extends_def band_keys_def)

lemma hits_extends: "extends l l' \<Longrightarrow> hits l m \<subseteq> hits l' m"
proof
  fix k assume e: "extends l l'" and "k \<in> hits l m"
  then obtain i where i: "i < length (hashranges l)" "i < length (hashtables l)"
      "k \<in> set (table_get (hashtables l ! i) (band_keys l m ! i))"
    by (auto simp: hits_iff)
  then have "table_get (hashtables l ! i) (band_keys l m ! i) \<noteq> []" by auto
  with e i have "table_get (hashtables l' ! i) (band_keys l m ! i) =
      table_get (hashtables l ! i) (band_keys l m ! i)"
    by (simp add: extends_def)
  with e i show "k \<in> hits l' m"
    unfolding hits_iff band_keys_extends [OF e] by (auto simp: extends_def)
qed

lemma lsh_ok_mono: "lsh_ok n l \<Longrightarrow> n \<le> n' \<Longrightarrow> lsh_ok n' l"
  unfolding lsh_ok_def by fastforce

lemma lsh_insert_ok:
  assumes ok: "lsh_ok n l" and len: "length m = 128" and empty: "hits l m = {}"
  shows "\<exists>l'. lsh_insert l n m = Inr l' \<and> lsh_ok (Suc n) l' \<and> extends l l' \<and>
              lsh_keys l' = lsh_keys l @ [n] \<and> n \<in> hits l' m \<and>
              (\<forall>i < length (hashtables l). \<forall>H. table_get (hashtables l' ! i) H =
                 (if H = band_keys l m ! i then [n] else table_get (hashtables l ! i) H))"
proof -
  define T where "T = map (\<lambda>(H, t). table_insert H n t) (zip (band_keys l m) (hashtables l))"
  define l' where "l' = l\<lparr>lsh_keys := lsh_keys l @ [n], hashtables := T\<rparr>"
  from ok have h: "lsh_h l = 128" and eq: "length (hashranges l) = length (hashtables l)"
    and ne: "hashtables l \<noteq> []" and fresh: "n \<notin> set (lsh_keys l)"
    and keys: "\<And>k. k \<in> set (lsh_keys l) \<Longrightarrow> k < n"
    and buckets: "\<And>i H. i < length (hashtables l) \<Longrightarrow>
           length (table_get (hashtables l ! i) H) \<le> 1 \<and>
           set (table_get (hashtables l ! i) H) \<subseteq> set (lsh_keys l)"
    unfolding lsh_ok_def by auto
  have ins: "lsh_insert l n m = Inr l'"
    using h len fresh by (simp add: lsh_insert_def l'_def T_def)
  have lenT: "length T = length (hashtables l)"
    by (simp add: T_def length_band_keys eq)
  have nth: "T ! i = table_insert (band_keys l m ! i) n (hashtables l ! i)"
    if "i < length (hashtables l)" for i
    using that by (simp add: T_def length_band_keys eq)
  have emp: "table_get (hashtables l ! i) (band_keys l m ! i) = []"
    if i: "i < length (hashtables l)" for i
  proof -
    have "set (table_get (hashtables l ! i) (band_keys l m ! i)) \<subseteq> hits l m"
      using i eq by (auto simp: hits_iff)
    with empty show ?thesis by simp
  qed
  have get: "table_get (T ! i) H =
      (if H = band_keys l m ! i then [n] else table_get (hashtables l ! i) H)"
    if i: "i < length (hashtables l)" for i H
    by (simp add: nth [OF i] table_get_insert emp [OF i] set_add_def)
  have b': "length (table_get (T ! i) H) \<le> 1 \<and>
      set (table_get (T ! i) H) \<subseteq> set (lsh_keys l @ [n])"
    if i: "i < length (hashtables l)" for i H
    unfolding get [OF i] using buckets [OF i, of H] by auto
  have sel: "lsh_h l' = lsh_h l" "hashranges l' = hashranges l" "hashtables l' = T"
      "lsh_keys l' = lsh_keys l @ [n]"
    by (simp_all add: l'_def)
  have Tne: "T \<noteq> []" using ne lenT by auto
  have ok': "lsh_ok (Suc n) l'"
    unfolding lsh_ok_def sel using h eq Tne b' keys by (auto simp: lenT less_Suc_eq)
  have ext: "extends l l'"
    unfolding extends_def sel using emp by (auto simp: lenT get)
  have bk: "band_keys l' m = band_keys l m"
    by (simp add: band_keys_def sel)
  have "0 < length (hashtables l)" using ne by simp
  then have "n \<in> hits l' m"
    unfolding hits_iff bk sel using eq get [of 0 "band_keys l m ! 0"]
    by (auto simp: lenT intro!: exI [of _ 0])
  moreover have "\<forall>i < length (hashtables l). \<forall>H. table_get (hashtables l' ! i) H =
      (if H = band_keys l m ! i then [n] else table_get (hashtables l ! i) H)"
    unfolding sel using get by blast
  ultimately show ?thesis
    using ins ok' ext sel by blast
qed

lemma init_Inr:
  assumes "MinHashLSH_init D t 128 = Inr l"
  shows "lsh_ok 0 l" and "lsh_keys l = []" and "hits l m = {}" and "0 \<le> t" and "t \<le> 1"
    and "2 \<le> lsh_b l" and "length (hashtables l) = lsh_b l"
  using assms
  by (auto simp: MinHashLSH_init_def lsh_ok_def hits_iff table_get_def
      split: if_splits prod.splits)

lemma loop_body_dup:
  "sha256 item \<in> sha256_seen s \<Longrightarrow>
     loop_body D n item s = Inr (s\<lparr>exact_dupes := exact_dupes s + 1\<rparr>)"
  by (simp add: loop_body_def)

lemma loop_body_near:
  assumes "lsh_ok n (lsh s)" and "sha256 item \<notin> sha256_seen s"
    and "hits (lsh s) (create_minhash D (item_text item) 128) \<noteq> {}"
  shows "\<exists>cs. cs \<noteq> [] \<and> set cs = hits (lsh s) (create_minhash D (item_text item) 128) \<and>
     loop_body D n item s =
       Inr (s\<lparr>sha256_seen := insert (sha256 item) (sha256_seen s),
              minhashes := dict_set n (create_minhash D (item_text item) 128) (minhashes s),
              near_dupe_groups := group_append (list_first D cs) n (near_dupe_groups s)\<rparr>)"
proof -
  let ?m = "create_minhash D (item_text item) 128"
  have "length ?m = lsh_h (lsh s)"
    using assms(1) by (simp add: lsh_ok_def length_create_minhash)
  then obtain cs where cs: "lsh_query (lsh s) ?m = Inr cs" "set cs = hits (lsh s) ?m"
    using lsh_query_hits by blast
  with assms(3) have "cs \<noteq> []" by auto
  with cs assms(2) show ?thesis
    by (auto simp: loop_body_def Let_def)
qed

lemma loop_body_new:
  assumes "lsh_ok n (lsh s)" and "sha256 item \<notin> sha256_seen s"
    and "hits (lsh s) (create_minhash D (item_text item) 128) = {}"
  shows "\<exists>l'. lsh_ok (Suc n) l' \<and> extends (lsh s) l' \<and> lsh_keys l' = lsh_keys (lsh s) @ [n] \<and>
     n \<in> hits l' (create_minhash D (item_text item) 128) \<and>
     lsh_insert (lsh s) n (create_minhash D (item_text item) 128) = Inr l' \<and>
     (\<forall>i < length (hashtables (lsh s)). \<forall>H. table_get (hashtables l' ! i) H =
        (if H = band_keys (lsh s) (create_minhash D (item_text item) 128) ! i then [n]
         else table_get (hashtables (lsh s) ! i) H)) \<and>
     loop_body D n item s =
       Inr (s\<lparr>sha256_seen := insert (sha256 item) (sha256_seen s),
              minhashes := dict_set n (create_minhash D (item_text item) 128) (minhashes s),
              lsh := l',
              near_dupe_groups := group_append n n (near_dupe_groups s)\<rparr>)"
proof -
  let ?m = "create_minhash D (item_text item) 128"
  have "length ?m = lsh_h (lsh s)"
    using assms(1) by (simp add: lsh_ok_def length_create_minhash)
  then obtain cs where cs: "lsh_query (lsh s) ?m = Inr cs" "set cs = hits (lsh s) ?m"
    using lsh_query_hits by blast
  with assms(3) have "cs = []" by auto
  moreover obtain l' where "lsh_insert (lsh s) n ?m = Inr l'" "lsh_ok (Suc n) l'"
      "extends (lsh s) l'" "lsh_keys l' = lsh_keys (lsh s) @ [n]" "n \<in> hits l' ?m"
      "\<forall>i < length (hashtables (lsh s)). \<forall>H. table_get (hashtables l' ! i) H =
        (if H = band_keys (lsh s) ?m ! i then [n] else table_get (hashtables (lsh s) ! i) H)"
    using lsh_insert_ok [OF assms(1) length_create_minhash assms(3)] by blast
  ultimately show ?thesis
    using cs assms(2) by (auto simp: loop_body_def Let_def)
qed

text \<open>An invariant of the loop, stated on the rows already processed.\<close>

lemma loop_rule_aux:
  assumes step: "\<And>pre item s. prefix (pre @ [item]) items \<Longrightarrow> P pre s \<Longrightarrow>
             \<exists>s'. loop_body D (length pre) item s = Inr s' \<and> P (pre @ [item]) s'"
  shows "pre @ rest = items \<Longrightarrow> P pre s \<Longrightarrow>
           \<exists>s'. loop D (length pre) rest s = Inr s' \<and> P items s'"
proof (induction rest arbitrary: pre s)
  case Nil
  then show ?case by simp
next
  case (Cons item rest)
  from Cons.prems have "prefix (pre @ [item]) items" by (auto simp: prefix_def)
  from step [OF this Cons.prems(2)] obtain s1
    where s1: "loop_body D (length pre) item s = Inr s1" "P (pre @ [item]) s1" by blast
  from Cons.prems have "(pre @ [item]) @ rest = items" by simp
  from Cons.IH [OF this s1(2)] s1(1) show ?case by simp
qed

lemma loop_rule:
  assumes "\<And>pre item s. prefix (pre @ [item]) items \<Longrightarrow> P pre s \<Longrightarrow>
             \<exists>s'. loop_body D (length pre) item s = Inr s' \<and> P (pre @ [item]) s'"
    and "P [] s"
  shows "\<exists>s'. loop D 0 items s = Inr s' \<and> P items s'"
  using loop_rule_aux [of items P D "[]" items s] assms by simp

lemma first_seen_append: "i < length pre \<Longrightarrow> first_seen (pre @ xs) i = first_seen pre i"
  by (simp add: first_seen_def nth_append)

lemma first_seen_last:
  "first_seen (pre @ [item]) (length pre) \<longleftrightarrow> sha256 item \<notin> sha256 ` set pre"
  by (simp add: first_seen_def)

lemma survivors_snoc:
  "survivors (pre @ [item]) =
     survivors pre @ (if sha256 item \<in> sha256 ` set pre then [] else [length pre])"
proof -
  have "filter (first_seen (pre @ [item])) [0..<length pre] = filter (first_seen pre) [0..<length pre]"
    by (rule filter_cong) (simp_all add: first_seen_append)
  then show ?thesis
    by (simp add: survivors_def first_seen_last)
qed

lemma survivors_less: "i \<in> set (survivors items) \<Longrightarrow> i < length items"
  by (simp add: survivors_def)

lemma dict_set_fresh: "k \<notin> fst ` set d \<Longrightarrow> dict_set k v d = d @ [(k, v)]"
  by (induction d) auto

lemma length_group_append: "length (group_append k v d) \<le> Suc (length d)"
  by (induction d) auto

lemma minhashes_snoc:
  assumes "minhashes s = map (\<lambda>i. (i, create_minhash D (item_text (pre ! i)) 128)) (survivors pre)"
  shows "dict_set (length pre) (create_minhash D (item_text item) 128) (minhashes s) =
     map (\<lambda>i. (i, create_minhash D (item_text ((pre @ [item]) ! i)) 128)) (survivors pre @ [length pre])"
proof -
  have "length pre \<notin> fst ` set (minhashes s)"
    using survivors_less [of "length pre" pre] by (auto simp: assms)
  moreover have "map (\<lambda>i. (i, create_minhash D (item_text ((pre @ [item]) ! i)) 128)) (survivors pre)
      = map (\<lambda>i. (i, create_minhash D (item_text (pre ! i)) 128)) (survivors pre)"
    by (rule map_cong) (simp_all add: nth_append survivors_less)
  ultimately show ?thesis
    by (simp add: dict_set_fresh assms)
qed

lemma inv1_step:
  assumes inv: "inv1 D pre s"
  shows "\<exists>s'. loop_body D (length pre) item s = Inr s' \<and> inv1 D (pre @ [item]) s' \<and>
              extends (lsh s) (lsh s')"
proof (cases "sha256 item \<in> sha256_seen s")
  case True
  have m: "map (\<lambda>i. (i, create_minhash D (item_text ((pre @ [item]) ! i)) 128)) (survivors pre)
      = map (\<lambda>i. (i, create_minhash D (item_text (pre ! i)) 128)) (survivors pre)"
    by (rule map_cong) (simp_all add: nth_append survivors_less)
  from True inv have "inv1 D (pre @ [item]) (s\<lparr>exact_dupes := exact_dupes s + 1\<rparr>)"
    unfolding inv1_def by (auto simp: survivors_snoc m intro: lsh_ok_mono)
  with True show ?thesis
    by (auto simp: loop_body_dup extends_refl)
next
  case False
  let ?m = "create_minhash D (item_text item) 128"
  from inv have ok: "lsh_ok (length pre) (lsh s)" by (simp add: inv1_def)
  from inv have mh: "minhashes s =
      map (\<lambda>i. (i, create_minhash D (item_text (pre ! i)) 128)) (survivors pre)"
    by (simp add: inv1_def)
  from False inv have sv: "survivors (pre @ [item]) = survivors pre @ [length pre]"
    by (simp add: survivors_snoc inv1_def)
  show ?thesis
  proof (cases "hits (lsh s) ?m = {}")
    case True
    from loop_body_new [OF ok False True] obtain l' where l':
      "lsh_ok (Suc (length pre)) l'" "extends (lsh s) l'"
      "lsh_keys l' = lsh_keys (lsh s) @ [length pre]"
      "loop_body D (length pre) item s =
         Inr (s\<lparr>sha256_seen := insert (sha256 item) (sha256_seen s),
                minhashes := dict_set (length pre) ?m (minhashes s),
                lsh := l',
                near_dupe_groups := group_append (length pre) (length pre) (near_dupe_groups s)\<rparr>)"
      by blast
    have "inv1 D (pre @ [item])
       (s\<lparr>sha256_seen := insert (sha256 item) (sha256_seen s),
          minhashes := dict_set (length pre) ?m (minhashes s),
          lsh := l',
          near_dupe_groups := group_append (length pre) (length pre) (near_dupe_groups s)\<rparr>)"
      unfolding inv1_def sv using inv l'(1,3) minhashes_snoc [OF mh, of item]
        length_group_append [of "length pre" "length pre" "near_dupe_groups s"]
      by (auto simp: inv1_def)
    with l' show ?thesis by auto
  next
    case hit: False
    from loop_body_near [OF ok False hit] obtain cs where cs:
      "loop_body D (length pre) item s =
         Inr (s\<lparr>sha256_seen := insert (sha256 item) (sha256_seen s),
                minhashes := dict_set (length pre) ?m (minhashes s),
                near_dupe_groups := group_append (list_first D cs) (length pre) (near_dupe_groups s)\<rparr>)"
      by blast
    have "inv1 D (pre @ [item])
       (s\<lparr>sha256_seen := insert (sha256 item) (sha256_seen s),
          minhashes := dict_set (length pre) ?m (minhashes s),
          near_dupe_groups := group_append (list_first D cs) (length pre) (near_dupe_groups s)\<rparr>)"
      unfolding inv1_def sv using inv minhashes_snoc [OF mh, of item]
        length_group_append [of "list_first D cs" "length pre" "near_dupe_groups s"]
      by (auto simp: inv1_def intro: lsh_ok_mono)
    with cs show ?thesis by (auto simp: extends_refl)
  qed
qed

lemma inv1_init: "MinHashLSH_init D t 128 = Inr l \<Longrightarrow> inv1 D [] (init_state l)"
  by (simp add: inv1_def init_state_def init_Inr survivors_def)

lemma loop_inv1:
  assumes "MinHashLSH_init D t 128 = Inr l"
  shows "\<exists>s. loop D 0 items (init_state l) = Inr s \<and> inv1 D items s"
  by (rule loop_rule [where P = "inv1 D"]) (use inv1_step inv1_init [OF assms] in blast)+

lemma valid_config_init: "valid_config D t \<longleftrightarrow> (\<exists>l. MinHashLSH_init D t 128 = Inr l)"
  by (auto simp: valid_config_def MinHashLSH_init_def split: prod.splits)

lemma main_finish:
  assumes "valid_config D t"
  shows "\<exists>l s. MinHashLSH_init D t 128 = Inr l \<and> loop D 0 items (init_state l) = Inr s \<and>
     inv1 D items s \<and> main D t items = Inr (finish items s)"
proof -
  from assms obtain l where l: "MinHashLSH_init D t 128 = Inr l"
    by (auto simp: valid_config_init)
  from loop_inv1 [OF l] obtain s where "loop D 0 items (init_state l) = Inr s" "inv1 D items s"
    by blast
  with l show ?thesis by (simp add: main_def)
qed

lemma loop_append:
  "loop D k (xs @ ys) s =
     (case loop D k xs s of Inl e \<Rightarrow> Inl e | Inr s' \<Rightarrow> loop D (k + length xs) ys s')"
  by (induction xs arbitrary: k s) (auto split: sum.splits)

lemma state_at_loop:
  assumes "MinHashLSH_init D t 128 = Inr l"
  shows "loop D 0 (take n items) (init_state l) = Inr (state_at D l items n)"
    and "inv1 D (take n items) (state_at D l items n)"
  using loop_inv1 [OF assms, of "take n items"] by (auto simp: state_at_def)

lemma state_at_0: "state_at D l items 0 = init_state l"
  by (simp add: state_at_def)

lemma state_at_Suc:
  assumes l: "MinHashLSH_init D t 128 = Inr l" and n: "n < length items"
  shows "loop_body D n (items ! n) (state_at D l items n) = Inr (state_at D l items (Suc n))"
proof -
  have "loop D 0 (take n items @ [items ! n]) (init_state l) =
      loop_body D n (items ! n) (state_at D l items n)"
    using n by (simp add: loop_append state_at_loop(1) [OF l] split: sum.splits)
  moreover have "take (Suc n) items = take n items @ [items ! n]"
    using n by (simp add: take_Suc_conv_app_nth)
  ultimately show ?thesis
    using state_at_loop(1) [OF l, of "Suc n" items] by simp
qed

lemma state_at_ok:
  assumes "MinHashLSH_init D t 128 = Inr l" and "n \<le> length items"
  shows "lsh_ok n (lsh (state_at D l items n))"
  using state_at_loop(2) [OF assms(1), of n items] assms(2) by (simp add: inv1_def)

lemma seen_iff:
  assumes "MinHashLSH_init D t 128 = Inr l" and "n < length items"
  shows "sha256 (items ! n) \<in> sha256_seen (state_at D l items n) \<longleftrightarrow> \<not> first_seen items n"
  using state_at_loop(2) [OF assms(1), of n items] by (simp add: inv1_def first_seen_def)

lemma step_dup:
  assumes l: "MinHashLSH_init D t 128 = Inr l" and n: "n < length items"
    and "\<not> first_seen items n"
  shows "state_at D l items (Suc n) =
     (state_at D l items n)\<lparr>exact_dupes := exact_dupes (state_at D l items n) + 1\<rparr>"
  using state_at_Suc [OF l n] loop_body_dup [of "items ! n" "state_at D l items n" D n]
    seen_iff [OF l n] assms(3) by simp

lemma step_near:
  assumes l: "MinHashLSH_init D t 128 = Inr l" and n: "n < length items"
    and "first_seen items n"
    and "hits (lsh (state_at D l items n)) (signature_of D items n) \<noteq> {}"
  shows "\<exists>cs. cs \<noteq> [] \<and> set cs = hits (lsh (state_at D l items n)) (signature_of D items n) \<and>
     state_at D l items (Suc n) =
       (state_at D l items n)
         \<lparr>sha256_seen := insert (sha256 (items ! n)) (sha256_seen (state_at D l items n)),
          minhashes := dict_set n (signature_of D items n) (minhashes (state_at D l items n)),
          near_dupe_groups :=
            group_append (list_first D cs) n (near_dupe_groups (state_at D l items n))\<rparr>"
proof -
  have "sha256 (items ! n) \<notin> sha256_seen (state_at D l items n)"
    using seen_iff [OF l n] assms(3) by simp
  moreover have "lsh_ok n (lsh (state_at D l items n))"
    using state_at_ok [OF l] n by simp
  ultimately show ?thesis
    using loop_body_near [of n "state_at D l items n" "items ! n" D] assms(4)
    unfolding state_at_Suc [OF l n] signature_of_def by simp
qed

lemma step_new:
  assumes l: "MinHashLSH_init D t 128 = Inr l" and n: "n < length items"
    and "inserted D l items n"
  shows "\<exists>l'. lsh_ok (Suc n) l' \<and> extends (lsh (state_at D l items n)) l' \<and>
     lsh_keys l' = lsh_keys (lsh (state_at D l items n)) @ [n] \<and>
     n \<in> hits l' (signature_of D items n) \<and>
     lsh_insert (lsh (state_at D l items n)) n (signature_of D items n) = Inr l' \<and>
     (\<forall>i < length (hashtables (lsh (state_at D l items n))). \<forall>H.
        table_get (hashtables l' ! i) H =
        (if H = band_keys (lsh (state_at D l items n)) (signature_of D items n) ! i then [n]
         else table_get (hashtables (lsh (state_at D l items n)) ! i) H)) \<and>
     state_at D l items (Suc n) =
       (state_at D l items n)
         \<lparr>sha256_seen := insert (sha256 (items ! n)) (sha256_seen (state_at D l items n)),
          minhashes := dict_set n (signature_of D items n) (minhashes (state_at D l items n)),
          lsh := l',
          near_dupe_groups := group_append n n (near_dupe_groups (state_at D l items n))\<rparr>"
proof -
  have "sha256 (items ! n) \<notin> sha256_seen (state_at D l items n)"
    using seen_iff [OF l n] assms(3) by (simp add: inserted_def)
  moreover have "lsh_ok n (lsh (state_at D l items n))"
    using state_at_ok [OF l] n by simp
  ultimately show ?thesis
    using loop_body_new [of n "state_at D l items n" "items ! n" D] assms(3)
    unfolding state_at_Suc [OF l n] signature_of_def inserted_def by simp
qed

lemma lsh_step:
  assumes l: "MinHashLSH_init D t 128 = Inr l" and n: "n < length items"
  shows "lsh_keys (lsh (state_at D l items (Suc n))) =
           lsh_keys (lsh (state_at D l items n)) @ (if inserted D l items n then [n] else [])"
    and "extends (lsh (state_at D l items n)) (lsh (state_at D l items (Suc n)))"
    and "\<not> inserted D l items n \<Longrightarrow>
           lsh (state_at D l items (Suc n)) = lsh (state_at D l items n)"
    and "first_seen items n \<Longrightarrow>
           hits (lsh (state_at D l items (Suc n))) (signature_of D items n) \<noteq> {}"
proof -
  consider (dup) "\<not> first_seen items n"
    | (near) "first_seen items n" "hits (lsh (state_at D l items n)) (signature_of D items n) \<noteq> {}"
    | (new) "inserted D l items n"
    by (auto simp: inserted_def)
  then have "lsh_keys (lsh (state_at D l items (Suc n))) =
           lsh_keys (lsh (state_at D l items n)) @ (if inserted D l items n then [n] else []) \<and>
      extends (lsh (state_at D l items n)) (lsh (state_at D l items (Suc n))) \<and>
      (\<not> inserted D l items n \<longrightarrow>
           lsh (state_at D l items (Suc n)) = lsh (state_at D l items n)) \<and>
      (first_seen items n \<longrightarrow>
           hits (lsh (state_at D l items (Suc n))) (signature_of D items n) \<noteq> {})"
  proof cases
    case dup
    then show ?thesis
      using step_dup [OF l n] by (simp add: inserted_def extends_refl)
  next
    case near
    then show ?thesis
      using step_near [OF l n] by (auto simp: inserted_def extends_refl)
  next
    case new
    then show ?thesis
      using step_new [OF l n] by auto
  qed
  then show "lsh_keys (lsh (state_at D l items (Suc n))) =
           lsh_keys (lsh (state_at D l items n)) @ (if inserted D l items n then [n] else [])"
    and "extends (lsh (state_at D l items n)) (lsh (state_at D l items (Suc n)))"
    and "\<not> inserted D l items n \<Longrightarrow>
           lsh (state_at D l items (Suc n)) = lsh (state_at D l items n)"
    and "first_seen items n \<Longrightarrow>
           hits (lsh (state_at D l items (Suc n))) (signature_of D items n) \<noteq> {}"
    by blast+
qed

lemma keys_at:
  assumes l: "MinHashLSH_init D t 128 = Inr l"
  shows "n \<le> length items \<Longrightarrow>
     lsh_keys (lsh (state_at D l items n)) = filter (inserted D l items) [0..<n]"
proof (induction n)
  case 0
  then show ?case by (simp add: state_at_0 init_state_def init_Inr(2) [OF l])
next
  case (Suc n)
  then show ?case by (simp add: lsh_step(1) [OF l])
qed

lemma extends_at:
  assumes l: "MinHashLSH_init D t 128 = Inr l"
  shows "n \<le> n' \<Longrightarrow> n' \<le> length items \<Longrightarrow>
     extends (lsh (state_at D l items n)) (lsh (state_at D l items n'))"
proof (induction n')
  case 0
  then show ?case by (simp add: extends_refl)
next
  case (Suc n')
  show ?case
  proof (cases "n = Suc n'")
    case True
    then show ?thesis by (simp add: extends_refl)
  next
    case False
    with Suc have "extends (lsh (state_at D l items n)) (lsh (state_at D l items n'))" by simp
    moreover have "extends (lsh (state_at D l items n')) (lsh (state_at D l items (Suc n')))"
      using lsh_step(2) [OF l] Suc.prems by simp
    ultimately show ?thesis by (rule extends_trans)
  qed
qed

lemma group_append_fresh: "k \<notin> fst ` set d \<Longrightarrow> group_append k v d = d @ [(k, [v])]"
  by (induction d) auto

lemma group_append_keys: "k \<in> fst ` set d \<Longrightarrow> map fst (group_append k v d) = map fst d"
proof (induction d)
  case Nil
  then show ?case by simp
next
  case (Cons p d)
  obtain k' g where p: "p = (k', g)" by (cases p)
  show ?case
  proof (cases "k' = k")
    case True
    with p show ?thesis by simp
  next
    case False
    with Cons.prems p have "k \<in> fst ` set d" by auto
    with Cons.IH False p show ?thesis by simp
  qed
qed

lemma group_append_old:
  "(k', g') \<in> set (group_append k v d) \<Longrightarrow>
     (k', g') \<in> set d \<or> (k' = k \<and> (g' = [v] \<or> (\<exists>g. (k, g) \<in> set d \<and> g' = g @ [v])))"
  by (induction d) (auto split: if_splits)

lemma group_append_grows:
  "(k', g) \<in> set d \<Longrightarrow> \<exists>g'. (k', g') \<in> set (group_append k v d) \<and> prefix g g'"
proof (induction d)
  case Nil
  then show ?case by simp
next
  case (Cons p d)
  obtain k0 g0 where p: "p = (k0, g0)" by (cases p)
  show ?case
  proof (cases "(k', g) = p")
    case True
    show ?thesis
    proof (cases "k0 = k")
      case True
      with \<open>(k', g) = p\<close> p have "(k', g @ [v]) \<in> set (group_append k v (p # d))" by simp
      then show ?thesis by (meson prefixI)
    next
      case False
      with \<open>(k', g) = p\<close> p have "(k', g) \<in> set (group_append k v (p # d))" by auto
      then show ?thesis by blast
    qed
  next
    case False
    with Cons.prems have "(k', g) \<in> set d" by simp
    show ?thesis
    proof (cases "k0 = k")
      case True
      with \<open>(k', g) \<in> set d\<close> p have "(k', g) \<in> set (group_append k v (p # d))" by simp
      then show ?thesis by blast
    next
      case False
      from Cons.IH [OF \<open>(k', g) \<in> set d\<close>] obtain g'
        where "(k', g') \<in> set (group_append k v d)" "prefix g g'" by blast
      with False p show ?thesis by auto
    qed
  qed
qed

lemma list_first_in: "cs \<noteq> [] \<Longrightarrow> list_first D cs \<in> set cs"
  by (simp add: list_first_def)

lemma hits_keys:
  assumes "lsh_ok n l"
  shows "hits l m \<subseteq> set (lsh_keys l)"
proof
  fix k assume "k \<in> hits l m"
  then obtain i where i: "i < length (hashtables l)"
    "k \<in> set (table_get (hashtables l ! i) (band_keys l m ! i))"
    by (auto simp: hits_iff)
  from assms i(1) have "set (table_get (hashtables l ! i) (band_keys l m ! i)) \<subseteq> set (lsh_keys l)"
    unfolding lsh_ok_def by blast
  with i(2) show "k \<in> set (lsh_keys l)" by blast
qed

lemma min_list_first:
  assumes "\<forall>x \<in> set xs. (k::nat) < x"
  shows "min_list (k # xs) = k"
proof -
  have "min_list (k # xs) = Min (set (k # xs))"
    by (rule min_list_Min) simp
  also have "\<dots> = k"
    by (rule Min_eqI) (use assms in \<open>auto simp: less_imp_le\<close>)
  finally show ?thesis .
qed

lemma group_append_old_mem:
  "k \<in> fst ` set d \<Longrightarrow> (k', g') \<in> set (group_append k v d) \<Longrightarrow>
     (k', g') \<in> set d \<or> (k' = k \<and> (\<exists>g. (k, g) \<in> set d \<and> g' = g @ [v]))"
proof (induction d)
  case Nil
  then show ?case by simp
next
  case (Cons p d)
  obtain k0 g0 where p: "p = (k0, g0)" by (cases p)
  show ?case
  proof (cases "k0 = k")
    case True
    with Cons.prems(2) p show ?thesis by auto
  next
    case False
    with Cons.prems(1) p have "k \<in> fst ` set d" by auto
    with Cons.IH Cons.prems(2) False p show ?thesis by auto
  qed
qed

lemma groups_at:
  assumes l: "MinHashLSH_init D t 128 = Inr l"
  shows "n \<le> length items \<Longrightarrow> groups_ok D l items n"
proof (induction n)
  case 0
  then show ?case
    by (simp add: groups_ok_def state_at_0 init_state_def init_Inr(2) [OF l])
next
  case (Suc n)
  let ?S = "state_at D l items"
  let ?gs = "near_dupe_groups (?S n)"
  from Suc have n: "n < length items" and IH: "groups_ok D l items n" by simp_all
  from IH have keys: "map fst ?gs = lsh_keys (lsh (?S n))"
    and grp: "\<And>k g. (k, g) \<in> set ?gs \<Longrightarrow>
        g \<noteq> [] \<and> hd g = k \<and> (\<forall>x \<in> set (tl g). k < x \<and> x < n \<and> \<not> inserted D l items x)"
    unfolding groups_ok_def by auto
  have ok: "lsh_ok n (lsh (?S n))"
    using state_at_ok [OF l] n by simp
  then have small: "\<And>k. k \<in> set (lsh_keys (lsh (?S n))) \<Longrightarrow> k < n"
    by (simp add: lsh_ok_def)
  have kset: "fst ` set ?gs = set (lsh_keys (lsh (?S n)))"
    using arg_cong [OF keys, of set] by simp
  consider (dup) "\<not> first_seen items n"
    | (near) "first_seen items n" "hits (lsh (?S n)) (signature_of D items n) \<noteq> {}"
    | (new) "inserted D l items n"
    by (auto simp: inserted_def)
  then show ?case
  proof cases
    case dup
    have "?S (Suc n) = (?S n)\<lparr>exact_dupes := exact_dupes (?S n) + 1\<rparr>"
      by (rule step_dup [OF l n dup])
    then have "near_dupe_groups (?S (Suc n)) = ?gs" "lsh (?S (Suc n)) = lsh (?S n)"
      by simp_all
    with keys grp show ?thesis
      unfolding groups_ok_def by (fastforce simp: less_Suc_eq)
  next
    case near
    from step_near [OF l n near] obtain cs where cs: "cs \<noteq> []"
      "set cs = hits (lsh (?S n)) (signature_of D items n)"
      and g': "near_dupe_groups (?S (Suc n)) = group_append (list_first D cs) n ?gs"
      and l': "lsh (?S (Suc n)) = lsh (?S n)"
      by force
    let ?k = "list_first D cs"
    have "?k \<in> set (lsh_keys (lsh (?S n)))"
      using list_first_in [OF cs(1), of D] cs(2) hits_keys [OF ok] by blast
    then have kin: "?k \<in> fst ` set ?gs" and klt: "?k < n"
      using kset small by auto
    have not_ins: "\<not> inserted D l items n"
      using near by (simp add: inserted_def)
    have "map fst (near_dupe_groups (?S (Suc n))) = lsh_keys (lsh (?S (Suc n)))"
      by (simp add: g' l' group_append_keys [OF kin] keys)
    moreover have "g \<noteq> [] \<and> hd g = k \<and>
        (\<forall>x \<in> set (tl g). k < x \<and> x < Suc n \<and> \<not> inserted D l items x)"
      if "(k, g) \<in> set (near_dupe_groups (?S (Suc n)))" for k g
    proof -
      from that group_append_old_mem [OF kin, of k g n]
      consider "(k, g) \<in> set ?gs" | g0 where "k = ?k" "(?k, g0) \<in> set ?gs" "g = g0 @ [n]"
        unfolding g' by blast
      then show ?thesis
      proof cases
        case 1
        from grp [OF 1] show ?thesis by (auto simp: less_Suc_eq)
      next
        case 2
        from grp [OF 2(2)] have "g0 \<noteq> []" "hd g0 = ?k"
          "\<forall>x \<in> set (tl g0). ?k < x \<and> x < n \<and> \<not> inserted D l items x" by auto
        with 2 klt not_ins show ?thesis by (auto simp: less_Suc_eq)
      qed
    qed
    ultimately show ?thesis
      unfolding groups_ok_def by blast
  next
    case new
    from step_new [OF l n new] obtain l' where
      k': "lsh_keys l' = lsh_keys (lsh (?S n)) @ [n]"
      and g': "near_dupe_groups (?S (Suc n)) = group_append n n ?gs"
      and l': "lsh (?S (Suc n)) = l'"
      by force
    have "n \<notin> fst ` set ?gs"
      using small [of n] kset by auto
    then have app: "group_append n n ?gs = ?gs @ [(n, [n])]"
      by (rule group_append_fresh)
    have "map fst (near_dupe_groups (?S (Suc n))) = lsh_keys (lsh (?S (Suc n)))"
      by (simp add: g' l' k' app keys)
    moreover have "g \<noteq> [] \<and> hd g = k \<and>
        (\<forall>x \<in> set (tl g). k < x \<and> x < Suc n \<and> \<not> inserted D l items x)"
      if "(k, g) \<in> set (near_dupe_groups (?S (Suc n)))" for k g
    proof -
      from that consider "(k, g) \<in> set ?gs" | "k = n" "g = [n]"
        unfolding g' app by auto
      then show ?thesis
      proof cases
        case 1
        from grp [OF 1] show ?thesis by (auto simp: less_Suc_eq)
      next
        case 2
        then show ?thesis by simp
      qed
    qed
    ultimately show ?thesis
      unfolding groups_ok_def by blast
  qed
qed

lemma main_state_at:
  assumes "valid_config D t"
  shows "\<exists>l. MinHashLSH_init D t 128 = Inr l \<and>
     main D t items = Inr (finish items (state_at D l items (length items)))"
proof -
  from assms obtain l where l: "MinHashLSH_init D t 128 = Inr l"
    by (auto simp: valid_config_init)
  from state_at_loop(1) [OF l, of "length items" items] l show ?thesis
    by (simp add: main_def)
qed

lemma groups_min:
  assumes l: "MinHashLSH_init D t 128 = Inr l" and n: "n \<le> length items"
  shows "map (\<lambda>(k, group). min_list group) (near_dupe_groups (state_at D l items n)) =
     filter (inserted D l items) [0..<n]"
proof -
  from groups_at [OF l n] have keys: "map fst (near_dupe_groups (state_at D l items n)) =
      lsh_keys (lsh (state_at D l items n))"
    and grp: "\<And>k g. (k, g) \<in> set (near_dupe_groups (state_at D l items n)) \<Longrightarrow>
        g \<noteq> [] \<and> hd g = k \<and> (\<forall>x \<in> set (tl g). k < x)"
    unfolding groups_ok_def by auto
  have "map (\<lambda>(k, group). min_list group) (near_dupe_groups (state_at D l items n)) =
      map fst (near_dupe_groups (state_at D l items n))"
  proof (rule map_cong [OF refl])
    fix p assume p: "p \<in> set (near_dupe_groups (state_at D l items n))"
    obtain k g where kg: "p = (k, g)" by (cases p)
    from grp [of k g] p kg have g: "g = k # tl g" and "\<forall>x \<in> set (tl g). k < x"
      by (auto simp: hd_Cons_tl)
    from min_list_first [OF this(2)] g have "min_list g = k" by simp
    with kg show "(case p of (k, g) \<Rightarrow> min_list g) = fst p" by simp
  qed
  with keys keys_at [OF l n] show ?thesis by simp
qed

lemma main_result:
  assumes "valid_config D t"
  shows "\<exists>l. MinHashLSH_init D t 128 = Inr l \<and>
     main D t items =
       Inr \<lparr> total_input = int (length items),
             unique_indices = filter (inserted D l items) [0..<length items],
             df_deduped = map (\<lambda>i. items ! i) (filter (inserted D l items) [0..<length items]),
             report = \<lparr> exact_duplicates = int (length items) - int (length (survivors items)),
               near_duplicates = int (length (survivors items)) -
                 int (length (filter (inserted D l items) [0..<length items])),
               unique_items = int (length (filter (inserted D l items) [0..<length items])),
               total_removed = int (length items) - int (length (survivors items)) +
                 (int (length (survivors items)) -
                  int (length (filter (inserted D l items) [0..<length items]))) \<rparr> \<rparr>"
proof -
  from main_state_at [OF assms] obtain l where l: "MinHashLSH_init D t 128 = Inr l"
    and m: "main D t items = Inr (finish items (state_at D l items (length items)))" by blast
  let ?s = "state_at D l items (length items)"
  have u: "map (\<lambda>(k, group). min_list group) (near_dupe_groups ?s) =
      filter (inserted D l items) [0..<length items]"
    by (rule groups_min [OF l]) simp
  from state_at_loop(2) [OF l, of "length items" items]
  have "exact_dupes ?s = int (length items) - int (length (survivors items))"
    "length (minhashes ?s) = length (survivors items)"
    by (simp_all add: inv1_def)
  with l m u show ?thesis
    by (simp add: finish_def Let_def)
qed

lemma first_seen_0: "first_seen items 0"
  by (simp add: first_seen_def)

lemma inserted_0:
  assumes "MinHashLSH_init D t 128 = Inr l"
  shows "inserted D l items 0"
  by (simp add: inserted_def first_seen_0 state_at_0 init_state_def init_Inr(3) [OF assms])

lemma not_first_seen_later:
  assumes "i < j" and "j < length items" and "sha256 (items ! i) = sha256 (items ! j)"
  shows "\<not> first_seen items j"
proof -
  from assms(1,2) have "items ! i \<in> set (take j items)"
    by (auto simp: in_set_conv_nth intro!: exI [of _ i])
  then have "sha256 (items ! i) \<in> sha256 ` set (take j items)" by (rule imageI)
  with assms(3) show ?thesis by (simp add: first_seen_def)
qed

lemma first_seen_iff:
  assumes "j < length items"
  shows "first_seen items j \<longleftrightarrow> (\<forall>i<j. sha256 (items ! i) \<noteq> sha256 (items ! j))"
proof
  assume f: "first_seen items j"
  show "\<forall>i<j. sha256 (items ! i) \<noteq> sha256 (items ! j)"
    using not_first_seen_later [OF _ assms] f by blast
next
  assume a: "\<forall>i<j. sha256 (items ! i) \<noteq> sha256 (items ! j)"
  show "first_seen items j"
    unfolding first_seen_def
  proof
    assume "sha256 (items ! j) \<in> sha256 ` set (take j items)"
    then obtain x where x: "x \<in> set (take j items)" "sha256 x = sha256 (items ! j)" by auto
    from x(1) obtain i where "i < length (take j items)" "take j items ! i = x"
      by (auto simp: in_set_conv_nth)
    with assms have "i < j" "items ! i = x" by simp_all
    with a x(2) show False by auto
  qed
qed

lemma survivors_filter:
  "survivors items = filter (\<lambda>j. \<forall>i<j. sha256 (items ! i) \<noteq> sha256 (items ! j)) [0..<length items]"
  unfolding survivors_def by (rule filter_cong) (simp_all add: first_seen_iff)

lemma dropped_count:
  "int (length items) - int (length (survivors items)) =
     int (length (filter (\<lambda>j. \<exists>i<j. sha256 (items ! i) = sha256 (items ! j)) [0..<length items]))"
proof -
  have "length (filter (\<lambda>j. \<forall>i<j. sha256 (items ! i) \<noteq> sha256 (items ! j)) [0..<length items]) +
      length (filter (\<lambda>j. \<not> (\<forall>i<j. sha256 (items ! i) \<noteq> sha256 (items ! j))) [0..<length items]) =
      length [0..<length items]"
    by (rule sum_length_filter_compl)
  then show ?thesis
    by (simp add: survivors_filter)
qed

lemma valid_example: "valid_config example_lib 0.85"
  by (simp add: valid_config_def example_lib_def)

lemma short2_short:
  "length (str_split (str_lower (item_text (short2 ! 0)))) < 3"
  "length (str_split (str_lower (item_text (short2 ! 1)))) < 3"
  by code_simp+

lemma short2_sha: "sha256 (short2 ! 0) \<noteq> sha256 (short2 ! 1)"
  by (simp add: short2_def)

lemma docs3_sha: "sha256 (docs3 ! 1) = sha256 (docs3 ! 2)"
  by (simp add: docs3_def)

lemma short2_run:
  "main example_lib 0.85 short2 =
     Inr \<lparr> total_input = 2, unique_indices = [0], df_deduped = [short2 ! 0],
           report = \<lparr> exact_duplicates = 0, near_duplicates = 1, unique_items = 1,
                      total_removed = 1 \<rparr> \<rparr>"
  by code_simp

lemma docs3_run:
  "main example_lib 0.85 docs3 =
     Inr \<lparr> total_input = 3, unique_indices = [0], df_deduped = [docs3 ! 0],
           report = \<lparr> exact_duplicates = 1, near_duplicates = 1, unique_items = 1,
                      total_removed = 2 \<rparr> \<rparr>"
  by code_simp

lemma main_init_error: "MinHashLSH_init D t 128 = Inl e \<Longrightarrow> main D t items = Inl e"
  by (simp add: main_def)

lemma valid_at_zero: "valid_config lib_at_zero 0"
  by (simp add: valid_config_def lib_at_zero_def example_lib_def)

lemma run_at_zero:
  "main lib_at_zero 0 short2 =
     Inr \<lparr> total_input = 2, unique_indices = [0], df_deduped = [short2 ! 0],
           report = \<lparr> exact_duplicates = 0, near_duplicates = 1, unique_items = 1,
                      total_removed = 1 \<rparr> \<rparr>"
  by code_simp

lemma update_cong:
  assumes "hashfunc D' = hashfunc D" and "permutation D' = permutation D"
  shows "update D' = update D"
  by (intro ext) (simp add: update_def permuted_def assms)

lemma create_minhash_cong:
  assumes "hashfunc D' = hashfunc D" and "permutation D' = permutation D"
  shows "create_minhash D' txt n = create_minhash D txt n"
  by (simp add: create_minhash_def update_cong [OF assms])

lemma init_cong:
  assumes "optimal_param D' = optimal_param D"
  shows "MinHashLSH_init D' t n = MinHashLSH_init D t n"
  by (simp add: MinHashLSH_init_def assms)

lemma lsh_at_cong:
  assumes h: "hashfunc D' = hashfunc D" and p: "permutation D' = permutation D"
    and l: "MinHashLSH_init D t 128 = Inr l" and l': "MinHashLSH_init D' t 128 = Inr l"
  shows "n \<le> length items \<Longrightarrow> lsh (state_at D' l items n) = lsh (state_at D l items n)"
proof (induction n)
  case 0
  then show ?case by (simp add: state_at_0)
next
  case (Suc n)
  then have n: "n < length items" and IH: "lsh (state_at D' l items n) = lsh (state_at D l items n)"
    by simp_all
  have sg: "signature_of D' items n = signature_of D items n"
    by (simp add: signature_of_def create_minhash_cong [OF h p])
  have ins: "inserted D' l items n \<longleftrightarrow> inserted D l items n"
    by (simp add: inserted_def IH sg)
  show ?case
  proof (cases "inserted D l items n")
    case True
    from step_new [OF l n True] have
      "lsh_insert (lsh (state_at D l items n)) n (signature_of D items n) =
         Inr (lsh (state_at D l items (Suc n)))" by force
    moreover from step_new [OF l' n] True ins have
      "lsh_insert (lsh (state_at D' l items n)) n (signature_of D' items n) =
         Inr (lsh (state_at D' l items (Suc n)))" by force
    ultimately show ?thesis by (simp add: IH sg)
  next
    case False
    with lsh_step(3) [OF l n] lsh_step(3) [OF l' n] ins IH show ?thesis by simp
  qed
qed

lemma init_example: "MinHashLSH_init example_lib 0.85 128 = Inr example_index"
  by (simp add: MinHashLSH_init_def example_lib_def example_index_def)


lemma groups_keys_at:
  assumes l: "MinHashLSH_init D t 128 = Inr l" and n: "n \<le> length items"
  shows "map fst (near_dupe_groups (state_at D l items n)) = filter (inserted D l items) [0..<n]"
  using groups_at [OF l n] keys_at [OF l n] by (simp add: groups_ok_def)

lemma groups_grow_step:
  assumes l: "MinHashLSH_init D t 128 = Inr l" and n: "n < length items"
    and g: "(k, g) \<in> set (near_dupe_groups (state_at D l items n))"
  shows "\<exists>g'. (k, g') \<in> set (near_dupe_groups (state_at D l items (Suc n))) \<and> prefix g g'"
proof -
  consider (dup) "\<not> first_seen items n"
    | (near) "first_seen items n" "hits (lsh (state_at D l items n)) (signature_of D items n) \<noteq> {}"
    | (new) "inserted D l items n"
    by (auto simp: inserted_def)
  then show ?thesis
  proof cases
    case dup
    from step_dup [OF l n dup] have
      "near_dupe_groups (state_at D l items (Suc n)) = near_dupe_groups (state_at D l items n)"
      by simp
    with g show ?thesis by auto
  next
    case near
    from step_near [OF l n near] obtain cs where
      "near_dupe_groups (state_at D l items (Suc n)) =
         group_append (list_first D cs) n (near_dupe_groups (state_at D l items n))"
      by force
    with group_append_grows [OF g] show ?thesis by simp
  next
    case new
    from step_new [OF l n new] have
      "near_dupe_groups (state_at D l items (Suc n)) =
         group_append n n (near_dupe_groups (state_at D l items n))"
      by force
    with group_append_grows [OF g] show ?thesis by simp
  qed
qed

lemma groups_grow:
  assumes l: "MinHashLSH_init D t 128 = Inr l"
    and g: "(k, g) \<in> set (near_dupe_groups (state_at D l items n))"
  shows "n \<le> n' \<Longrightarrow> n' \<le> length items \<Longrightarrow>
     \<exists>g'. (k, g') \<in> set (near_dupe_groups (state_at D l items n')) \<and> prefix g g'"
proof (induction n')
  case 0
  with g show ?case by auto
next
  case (Suc n')
  show ?case
  proof (cases "n = Suc n'")
    case True
    with g show ?thesis by auto
  next
    case False
    with Suc obtain g1 where g1: "(k, g1) \<in> set (near_dupe_groups (state_at D l items n'))"
      "prefix g g1" by auto
    from Suc.prems have "n' < length items" by simp
    from groups_grow_step [OF l this g1(1)] obtain g'
      where "(k, g') \<in> set (near_dupe_groups (state_at D l items (Suc n')))" "prefix g1 g'"
      by blast
    with g1(2) show ?thesis by (meson prefix_order.trans)
  qed
qed

lemma group_facts:
  assumes l: "MinHashLSH_init D t 128 = Inr l" and n: "n \<le> length items"
    and g: "(k, g) \<in> set (near_dupe_groups (state_at D l items n))"
  shows "g \<noteq> []" and "hd g = k" and "min_list g = k" and "inserted D l items k" and "k < n"
    and "\<forall>x \<in> set (tl g). k < x \<and> x < n \<and> \<not> inserted D l items x"
proof -
  from groups_at [OF l n] g show a: "g \<noteq> []" and b: "hd g = k"
    and c: "\<forall>x \<in> set (tl g). k < x \<and> x < n \<and> \<not> inserted D l items x"
    unfolding groups_ok_def by auto
  from a b have "g = k # tl g" by (metis list.collapse)
  moreover from c have "\<forall>x \<in> set (tl g). k < x" by blast
  ultimately show "min_list g = k" using min_list_first [of "tl g" k] by simp
  from g have "k \<in> set (map fst (near_dupe_groups (state_at D l items n)))" by force
  then show "inserted D l items k" and "k < n"
    unfolding groups_keys_at [OF l n] by simp_all
qed

lemma groups_at_1:
  assumes l: "MinHashLSH_init D t 128 = Inr l" and "items \<noteq> []"
  shows "near_dupe_groups (state_at D l items 1) = [(0, [0])]"
proof -
  from assms(2) have len: "0 < length items" by simp
  from step_new [OF l len inserted_0 [OF l]] have
    "near_dupe_groups (state_at D l items (Suc 0)) =
      group_append 0 0 (near_dupe_groups (state_at D l items 0))"
    by force
  then show ?thesis by (simp add: state_at_0 init_state_def)
qed



lemma group_append_mem:
  "distinct (map fst d) \<Longrightarrow> (k, g) \<in> set d \<Longrightarrow> (k, g @ [v]) \<in> set (group_append k v d)"
proof (induction d)
  case Nil
  then show ?case by simp
next
  case (Cons p d)
  obtain k0 g0 where p: "p = (k0, g0)" by (cases p)
  show ?case
  proof (cases "k0 = k")
    case True
    with Cons.prems p have "g0 = g" by (auto simp: image_iff)
    with True p show ?thesis by simp
  next
    case False
    with Cons.prems p have "distinct (map fst d)" "(k, g) \<in> set d" by auto
    from Cons.IH [OF this] False p show ?thesis by simp
  qed
qed

lemma joins_cluster:
  assumes l: "MinHashLSH_init D t 128 = Inr l" and n: "n < length items"
    and f: "first_seen items n"
    and h: "hits (lsh (state_at D l items n)) (signature_of D items n) \<noteq> {}"
  shows "\<exists>k \<in> hits (lsh (state_at D l items n)) (signature_of D items n).
     \<exists>g. (k, g) \<in> set (near_dupe_groups (state_at D l items n)) \<and>
         (k, g @ [n]) \<in> set (near_dupe_groups (state_at D l items (Suc n)))"
proof -
  let ?gs = "near_dupe_groups (state_at D l items n)"
  from step_near [OF l n f h] obtain cs where cs: "cs \<noteq> []"
    "set cs = hits (lsh (state_at D l items n)) (signature_of D items n)"
    and g': "near_dupe_groups (state_at D l items (Suc n)) = group_append (list_first D cs) n ?gs"
    by force
  let ?k = "list_first D cs"
  from n have n': "n \<le> length items" by simp
  have kh: "?k \<in> hits (lsh (state_at D l items n)) (signature_of D items n)"
    using list_first_in [OF cs(1), of D] cs(2) by simp
  have "lsh_ok n (lsh (state_at D l items n))"
    using state_at_ok [OF l n'] .
  from hits_keys [OF this] kh have "?k \<in> set (lsh_keys (lsh (state_at D l items n)))"
    by blast
  then have "?k \<in> set (map fst ?gs)"
    by (simp add: groups_keys_at [OF l n'] keys_at [OF l n'])
  then obtain g where g: "(?k, g) \<in> set ?gs" by auto
  have "distinct (map fst ?gs)"
    by (simp add: groups_keys_at [OF l n'])
  from group_append_mem [OF this g] have "(?k, g @ [n]) \<in> set (group_append ?k n ?gs)" .
  with kh g g' show ?thesis by auto
qed





















section \<open>The claims\<close>

text \<open>
  C3. For every run that the configuration lets start, the statistics satisfy
  total input = exact duplicates + near duplicates + retained, where the near duplicates are
  the rows that survive the exact stage minus the retained ones; that difference is never
  negative, and the total removed is the sum of both kinds of duplicates.
\<close>

theorem conservation_law:
  assumes "valid_config D t"
  shows "\<exists>out. main D t items = Inr out \<and>
     total_input out = int (length items) \<and>
     total_input out =
       exact_duplicates (report out) + near_duplicates (report out) + unique_items (report out) \<and>
     unique_items (report out) = int (length (unique_indices out)) \<and>
     near_duplicates (report out) =
       int (length (survivors items)) - int (length (unique_indices out)) \<and>
     0 \<le> near_duplicates (report out) \<and>
     total_removed (report out) = exact_duplicates (report out) + near_duplicates (report out)"
proof -
  from main_finish [OF assms] obtain s where s: "inv1 D items s"
    "main D t items = Inr (finish items s)" by blast
  from s(1) have "exact_dupes s = int (length items) - int (length (survivors items))"
    "length (minhashes s) = length (survivors items)"
    "length (near_dupe_groups s) \<le> length (survivors items)"
    by (simp_all add: inv1_def)
  then show ?thesis
    unfolding s(2) by (simp add: finish_def Let_def)
qed

theorem conservation_law_witness:
  "valid_config example_lib 0.85 \<and>
   (\<exists>out. main example_lib 0.85 docs4 = Inr out \<and>
     total_input out = 4 \<and>
     total_input out =
       exact_duplicates (report out) + near_duplicates (report out) + unique_items (report out))"
proof -
  have v: "valid_config example_lib 0.85"
    by (simp add: valid_config_def example_lib_def)
  show ?thesis
    using v conservation_law [OF v, of docs4] by (auto simp: docs4_def)
qed

text \<open>
  C9. For every non-empty input and every valid configuration the first row is retained:
  no hash has been seen before it, the query against the empty index returns nothing, it is
  inserted and heads its own group, whose minimum is 0, and 0 is the first retained index.
\<close>

theorem first_row_retained:
  assumes "valid_config D t" and "items \<noteq> []"
  shows "\<exists>l out. MinHashLSH_init D t 128 = Inr l \<and> main D t items = Inr out \<and>
     sha256 (items ! 0) \<notin> sha256_seen (init_state l) \<and>
     lsh_query l (create_minhash D (item_text (items ! 0)) 128) = Inr [] \<and>
     near_dupe_groups (state_at D l items 1) = [(0, [0])] \<and>
     lsh_keys (lsh (state_at D l items 1)) = [0] \<and>
     (\<exists>g. (0, g) \<in> set (near_dupe_groups (state_at D l items (length items))) \<and>
          hd g = 0 \<and> min_list g = 0) \<and>
     0 \<in> set (unique_indices out) \<and> hd (unique_indices out) = 0 \<and>
     hd (df_deduped out) = items ! 0"
proof -
  from main_result [OF assms(1), of items] obtain l where l: "MinHashLSH_init D t 128 = Inr l"
    and u: "\<exists>out. main D t items = Inr out \<and>
      unique_indices out = filter (inserted D l items) [0..<length items] \<and>
      df_deduped out = map (\<lambda>i. items ! i) (filter (inserted D l items) [0..<length items])"
    by force
  from assms(2) have len: "0 < length items" by simp
  have ins: "inserted D l items 0" by (rule inserted_0 [OF l])
  have f: "filter (inserted D l items) [0..<length items] =
      0 # filter (inserted D l items) [Suc 0..<length items]"
    using len ins by (simp add: upt_conv_Cons)
  have q: "lsh_query l (create_minhash D (item_text (items ! 0)) 128) = Inr []"
  proof -
    have "length (create_minhash D (item_text (items ! 0)) 128) = lsh_h l"
      using init_Inr(1) [OF l] by (simp add: length_create_minhash lsh_ok_def)
    from lsh_query_hits [OF this] init_Inr(3) [OF l] show ?thesis by auto
  qed
  from step_new [OF l len ins] obtain l' where
    k': "lsh_keys l' = lsh_keys (lsh (state_at D l items 0)) @ [0]"
    and s1: "near_dupe_groups (state_at D l items (Suc 0)) =
      group_append 0 0 (near_dupe_groups (state_at D l items 0))"
      "lsh (state_at D l items (Suc 0)) = l'"
    by force
  have g1: "near_dupe_groups (state_at D l items 1) = [(0, [0])]"
    using s1(1) by (simp add: state_at_0 init_state_def)
  have k1: "lsh_keys (lsh (state_at D l items 1)) = [0]"
    using s1(2) k' by (simp add: state_at_0 init_state_def init_Inr(2) [OF l])
  have fin: "\<exists>g. (0, g) \<in> set (near_dupe_groups (state_at D l items (length items))) \<and>
      hd g = 0 \<and> min_list g = 0"
  proof -
    let ?gs = "near_dupe_groups (state_at D l items (length items))"
    from groups_at [OF l, of "length items" items]
    have keys: "map fst ?gs = lsh_keys (lsh (state_at D l items (length items)))"
      and grp: "\<And>k g. (k, g) \<in> set ?gs \<Longrightarrow> g \<noteq> [] \<and> hd g = k \<and> (\<forall>x \<in> set (tl g). k < x)"
      unfolding groups_ok_def by auto
    have "0 \<in> set (map fst ?gs)"
      unfolding keys keys_at [OF l order_refl] f by simp
    then obtain g where g: "(0, g) \<in> set ?gs" by auto
    from grp [OF g] have "g \<noteq> []" "hd g = 0" and pos: "\<forall>x \<in> set (tl g). 0 < x" by auto
    then have "g = 0 # tl g" by (metis list.collapse)
    with min_list_first [OF pos] have "min_list g = 0" by simp
    with g grp [OF g] show ?thesis by blast
  qed
  from u obtain out where "main D t items = Inr out"
    "unique_indices out = filter (inserted D l items) [0..<length items]"
    "df_deduped out = map (\<lambda>i. items ! i) (filter (inserted D l items) [0..<length items])"
    by blast
  with l q g1 k1 fin show ?thesis
    unfolding f by (auto simp: init_state_def)
qed

theorem first_row_retained_witness:
  "valid_config example_lib 0.85 \<and> docs4 \<noteq> [] \<and>
   (\<exists>out. main example_lib 0.85 docs4 = Inr out \<and> hd (unique_indices out) = 0 \<and>
      hd (df_deduped out) = docs4 ! 0)"
proof -
  have v: "valid_config example_lib 0.85"
    by (simp add: valid_config_def example_lib_def)
  have n: "docs4 \<noteq> []" by (simp add: docs4_def)
  from first_row_retained [OF v n] v n show ?thesis by blast
qed

text \<open>
  C2 (as amended). Of two rows with the same \<open>sha256\<close> the later one is never retained.
  The earlier one is retained exactly when no still earlier row has that \<open>sha256\<close> and its
  query of the index returns no candidate. So at most one of the two is retained, and only
  the earlier one can be.
\<close>

theorem later_duplicate_never_retained:
  assumes "valid_config D t" and "i < j" and "j < length items"
    and "sha256 (items ! i) = sha256 (items ! j)"
  shows "\<exists>l out. MinHashLSH_init D t 128 = Inr l \<and> main D t items = Inr out \<and>
     j \<notin> set (unique_indices out) \<and>
     (i \<in> set (unique_indices out) \<longleftrightarrow>
        (\<forall>i'<i. sha256 (items ! i') \<noteq> sha256 (items ! i)) \<and>
        hits (lsh (state_at D l items i)) (create_minhash D (item_text (items ! i)) 128) = {})"
proof -
  from main_result [OF assms(1), of items] obtain l out
    where l: "MinHashLSH_init D t 128 = Inr l" and out: "main D t items = Inr out"
      and u: "unique_indices out = filter (inserted D l items) [0..<length items]"
    by force
  have "\<not> inserted D l items j"
    using not_first_seen_later [OF assms(2-4)] by (simp add: inserted_def)
  then have "j \<notin> set (unique_indices out)" by (simp add: u)
  moreover from assms(2,3) have "i < length items" by simp
  then have "i \<in> set (unique_indices out) \<longleftrightarrow>
        (\<forall>i'<i. sha256 (items ! i') \<noteq> sha256 (items ! i)) \<and>
        hits (lsh (state_at D l items i)) (create_minhash D (item_text (items ! i)) 128) = {}"
    by (simp add: u inserted_def first_seen_iff signature_of_def)
  ultimately show ?thesis using l out by blast
qed

theorem later_duplicate_never_retained_witness:
  "valid_config example_lib 0.85 \<and> (0::nat) < 1 \<and> 1 < length docs4 \<and>
   sha256 (docs4 ! 0) = sha256 (docs4 ! 1) \<and>
   (\<exists>out. main example_lib 0.85 docs4 = Inr out \<and> 1 \<notin> set (unique_indices out))"
proof -
  have v: "valid_config example_lib 0.85"
    by (simp add: valid_config_def example_lib_def)
  have a: "(0::nat) < 1" "1 < length docs4" "sha256 (docs4 ! 0) = sha256 (docs4 ! 1)"
    by (simp_all add: docs4_def)
  from later_duplicate_never_retained [OF v a] v a show ?thesis by blast
qed

text \<open>
  C10. The exact stage looks at \<open>sha256\<close> only. A row whose \<open>sha256\<close> equals that of an
  earlier row leaves everything but the counter of exact duplicates unchanged, whatever its
  text; the rows that reach the signature computation are exactly those whose \<open>sha256\<close>
  differs from that of every earlier row, whatever their texts, and each gets the signature
  of its own text.
\<close>

theorem exact_stage_uses_sha256_only:
  assumes "valid_config D t"
  shows "\<exists>l out. MinHashLSH_init D t 128 = Inr l \<and> main D t items = Inr out \<and>
     minhashes (state_at D l items (length items)) =
       map (\<lambda>j. (j, create_minhash D (item_text (items ! j)) 128))
         (filter (\<lambda>j. \<forall>i<j. sha256 (items ! i) \<noteq> sha256 (items ! j)) [0..<length items]) \<and>
     exact_duplicates (report out) =
       int (length (filter (\<lambda>j. \<exists>i<j. sha256 (items ! i) = sha256 (items ! j)) [0..<length items])) \<and>
     (\<forall>j<length items. (\<exists>i<j. sha256 (items ! i) = sha256 (items ! j)) \<longrightarrow>
        state_at D l items (Suc j) =
          (state_at D l items j)\<lparr>exact_dupes := exact_dupes (state_at D l items j) + 1\<rparr>)"
proof -
  from main_result [OF assms(1), of items] obtain l out
    where l: "MinHashLSH_init D t 128 = Inr l" and out: "main D t items = Inr out"
      and e: "exact_duplicates (report out) = int (length items) - int (length (survivors items))"
    by force
  from state_at_loop(2) [OF l, of "length items" items]
  have m: "minhashes (state_at D l items (length items)) =
      map (\<lambda>j. (j, create_minhash D (item_text (items ! j)) 128)) (survivors items)"
    by (simp add: inv1_def)
  have "state_at D l items (Suc j) =
      (state_at D l items j)\<lparr>exact_dupes := exact_dupes (state_at D l items j) + 1\<rparr>"
    if "j < length items" "\<exists>i<j. sha256 (items ! i) = sha256 (items ! j)" for j
    using step_dup [OF l that(1)] that by (simp add: first_seen_iff)
  then have d: "\<forall>j<length items. (\<exists>i<j. sha256 (items ! i) = sha256 (items ! j)) \<longrightarrow>
      state_at D l items (Suc j) =
        (state_at D l items j)\<lparr>exact_dupes := exact_dupes (state_at D l items j) + 1\<rparr>"
    by blast
  have m': "minhashes (state_at D l items (length items)) =
       map (\<lambda>j. (j, create_minhash D (item_text (items ! j)) 128))
         (filter (\<lambda>j. \<forall>i<j. sha256 (items ! i) \<noteq> sha256 (items ! j)) [0..<length items])"
    using m by (simp only: survivors_filter)
  have e': "exact_duplicates (report out) =
       int (length (filter (\<lambda>j. \<exists>i<j. sha256 (items ! i) = sha256 (items ! j)) [0..<length items]))"
    using e by (simp only: dropped_count)
  show ?thesis
    by (intro exI [of _ l] exI [of _ out] conjI) (fact l out m' e' d)+
qed

theorem exact_stage_uses_sha256_only_witness:
  "valid_config example_lib 0.85 \<and>
   (\<exists>l out. MinHashLSH_init example_lib 0.85 128 = Inr l \<and>
      main example_lib 0.85 docs4 = Inr out \<and>
      map fst (minhashes (state_at example_lib l docs4 (length docs4))) = [0, 2, 3] \<and>
      exact_duplicates (report out) = 1)"
proof -
  have v: "valid_config example_lib 0.85"
    by (simp add: valid_config_def example_lib_def)
  have f: "filter (\<lambda>j. \<forall>i<j. sha256 (docs4 ! i) \<noteq> sha256 (docs4 ! j)) [0..<length docs4] = [0, 2, 3]"
    by (simp add: docs4_def upt_rec_numeral All_less_Suc numeral_nat)
  have g: "filter (\<lambda>j. \<exists>i<j. sha256 (docs4 ! i) = sha256 (docs4 ! j)) [0..<length docs4] = [1]"
    by (simp add: docs4_def upt_rec_numeral Ex_less_Suc numeral_nat)
  from exact_stage_uses_sha256_only [OF v, of docs4] obtain l out
    where l: "MinHashLSH_init example_lib 0.85 128 = Inr l"
      and out: "main example_lib 0.85 docs4 = Inr out"
      and m: "minhashes (state_at example_lib l docs4 (length docs4)) =
        map (\<lambda>j. (j, create_minhash example_lib (item_text (docs4 ! j)) 128))
          (filter (\<lambda>j. \<forall>i<j. sha256 (docs4 ! i) \<noteq> sha256 (docs4 ! j)) [0..<length docs4])"
      and e: "exact_duplicates (report out) =
        int (length (filter (\<lambda>j. \<exists>i<j. sha256 (docs4 ! i) = sha256 (docs4 ! j)) [0..<length docs4]))"
    by blast
  have a: "map fst (minhashes (state_at example_lib l docs4 (length docs4))) = [0, 2, 3]"
    unfolding m f by simp
  have b: "exact_duplicates (report out) = 1"
    unfolding e g by simp
  show ?thesis
    by (intro exI [of _ l] exI [of _ out] conjI) (fact v l out a b)+
qed

text \<open>
  C2, the claim as stated fails: in \<open>docs3\<close> rows 1 and 2 have the same \<open>sha256\<close>; row 1 is
  grouped under row 0 by the index and row 2 is an exact duplicate, so neither is retained.
\<close>

theorem exact_dup_pair_counterexample:
  "valid_config example_lib 0.85 \<and> sha256 (docs3 ! 1) = sha256 (docs3 ! 2) \<and>
   main example_lib 0.85 docs3 =
     Inr \<lparr> total_input = 3, unique_indices = [0], df_deduped = [docs3 ! 0],
           report = \<lparr> exact_duplicates = 1, near_duplicates = 1, unique_items = 1,
                      total_removed = 2 \<rparr> \<rparr>"
  by (intro conjI) (fact valid_example docs3_sha docs3_run)+

text \<open>
  C1, the claim as stated fails: both rows of \<open>short2\<close> have two tokens and different
  \<open>sha256\<close>; the second is counted as a near duplicate of the first and is not retained.
\<close>

theorem short_rows_counterexample:
  "valid_config example_lib 0.85 \<and>
   length (str_split (str_lower (item_text (short2 ! 0)))) < 3 \<and>
   length (str_split (str_lower (item_text (short2 ! 1)))) < 3 \<and>
   sha256 (short2 ! 0) \<noteq> sha256 (short2 ! 1) \<and>
   main example_lib 0.85 short2 =
     Inr \<lparr> total_input = 2, unique_indices = [0], df_deduped = [short2 ! 0],
           report = \<lparr> exact_duplicates = 0, near_duplicates = 1, unique_items = 1,
                      total_removed = 1 \<rparr> \<rparr>"
  by (intro conjI) (fact valid_example short2_short short2_sha short2_run)+

text \<open>
  C8, the claim as stated fails at threshold 0: the constructor of the index accepts it and
  the run completes. (\<open>lib_at_zero\<close> has the band search return the most bands and the fewest
  rows, which is what minimising the false negatives alone gives.)
\<close>

theorem threshold_zero_counterexample:
  "valid_config lib_at_zero 0 \<and>
   main lib_at_zero 0 short2 =
     Inr \<lparr> total_input = 2, unique_indices = [0], df_deduped = [short2 ! 0],
           report = \<lparr> exact_duplicates = 0, near_duplicates = 1, unique_items = 1,
                      total_removed = 1 \<rparr> \<rparr>"
  by (intro conjI) (fact valid_at_zero run_at_zero)+

text \<open>
  C8 (as amended). For every threshold below 0 or above 1 the constructor of the index raises
  \<open>ValueError\<close>, so the run fails before the loop, whatever the input, and no value is
  clamped. Every threshold from 0 to 1, 0 included, passes that check; the run then
  completes whenever the band search returns at least two bands.
\<close>

theorem threshold_out_of_range_rejected:
  "(t < 0 \<or> 1 < t \<longrightarrow>
      MinHashLSH_init D t 128 = Inl (ValueError ''threshold must be in [0.0, 1.0]'') \<and>
      main D t items = Inl (ValueError ''threshold must be in [0.0, 1.0]'')) \<and>
   (0 \<le> t \<and> t \<le> 1 \<longrightarrow>
      main D t items \<noteq> Inl (ValueError ''threshold must be in [0.0, 1.0]'') \<and>
      (2 \<le> fst (optimal_param D t 128) \<longrightarrow> (\<exists>out. main D t items = Inr out)))"
proof (intro conjI impI)
  assume "t < 0 \<or> 1 < t"
  then show i: "MinHashLSH_init D t 128 = Inl (ValueError ''threshold must be in [0.0, 1.0]'')"
    by (auto simp: MinHashLSH_init_def)
  show "main D t items = Inl (ValueError ''threshold must be in [0.0, 1.0]'')"
    by (rule main_init_error [OF i])
next
  assume t: "0 \<le> t \<and> t \<le> 1"
  show "main D t items \<noteq> Inl (ValueError ''threshold must be in [0.0, 1.0]'')"
  proof (cases "2 \<le> fst (optimal_param D t 128)")
    case True
    with t have "valid_config D t" by (simp add: valid_config_def)
    from main_state_at [OF this, of items] show ?thesis by auto
  next
    case False
    with t have "MinHashLSH_init D t 128 =
        Inl (ValueError ''The number of bands are too small (b < 2)'')"
      by (auto simp: MinHashLSH_init_def split: prod.splits)
    from main_init_error [OF this] show ?thesis by simp
  qed
next
  assume "0 \<le> t \<and> t \<le> 1" and "2 \<le> fst (optimal_param D t 128)"
  then have "valid_config D t" by (simp add: valid_config_def)
  from main_state_at [OF this, of items] show "\<exists>out. main D t items = Inr out" by auto
qed

theorem threshold_out_of_range_rejected_witness:
  "main example_lib 2 docs4 = Inl (ValueError ''threshold must be in [0.0, 1.0]'') \<and>
   main example_lib (- 1) docs4 = Inl (ValueError ''threshold must be in [0.0, 1.0]'') \<and>
   main example_lib 0.85 docs4 \<noteq> Inl (ValueError ''threshold must be in [0.0, 1.0]'') \<and>
   (\<exists>out. main lib_at_zero 0 docs4 = Inr out)"
proof (intro conjI)
  show "main example_lib 2 docs4 = Inl (ValueError ''threshold must be in [0.0, 1.0]'')"
    using threshold_out_of_range_rejected [of 2 example_lib docs4] by simp
  show "main example_lib (- 1) docs4 = Inl (ValueError ''threshold must be in [0.0, 1.0]'')"
    using threshold_out_of_range_rejected [of "- 1" example_lib docs4] by simp
  show "main example_lib 0.85 docs4 \<noteq> Inl (ValueError ''threshold must be in [0.0, 1.0]'')"
    using threshold_out_of_range_rejected [of "0.85" example_lib docs4] by simp
  show "\<exists>out. main lib_at_zero 0 docs4 = Inr out"
    using threshold_out_of_range_rejected [of 0 lib_at_zero docs4]
    by (simp add: lib_at_zero_def example_lib_def)
qed

text \<open>
  C5. Two runs on the same input and threshold, with the same hash function, the same
  seed table and the same band search, give the same signatures and the same outcome:
  the same retained indices, rows and statistics, or the same error. This holds whatever
  order the candidate sets iterate in during either run.
\<close>

theorem run_is_reproducible:
  assumes "hashfunc D' = hashfunc D" and "permutation D' = permutation D"
    and "optimal_param D' = optimal_param D"
  shows "main D' t items = main D t items \<and>
     (\<forall>txt n. create_minhash D' txt n = create_minhash D txt n)"
proof
  show "\<forall>txt n. create_minhash D' txt n = create_minhash D txt n"
    by (simp add: create_minhash_cong [OF assms(1,2)])
  show "main D' t items = main D t items"
  proof (cases "valid_config D t")
    case True
    then have v': "valid_config D' t" by (simp add: valid_config_def assms(3))
    from main_result [OF True, of items] obtain l where l: "MinHashLSH_init D t 128 = Inr l"
      and m: "main D t items =
       Inr \<lparr> total_input = int (length items),
             unique_indices = filter (inserted D l items) [0..<length items],
             df_deduped = map (\<lambda>i. items ! i) (filter (inserted D l items) [0..<length items]),
             report = \<lparr> exact_duplicates = int (length items) - int (length (survivors items)),
               near_duplicates = int (length (survivors items)) -
                 int (length (filter (inserted D l items) [0..<length items])),
               unique_items = int (length (filter (inserted D l items) [0..<length items])),
               total_removed = int (length items) - int (length (survivors items)) +
                 (int (length (survivors items)) -
                  int (length (filter (inserted D l items) [0..<length items]))) \<rparr> \<rparr>"
      by blast
    have l': "MinHashLSH_init D' t 128 = Inr l"
      using l by (simp add: init_cong [OF assms(3)])
    from main_result [OF v', of items] l' have m': "main D' t items =
       Inr \<lparr> total_input = int (length items),
             unique_indices = filter (inserted D' l items) [0..<length items],
             df_deduped = map (\<lambda>i. items ! i) (filter (inserted D' l items) [0..<length items]),
             report = \<lparr> exact_duplicates = int (length items) - int (length (survivors items)),
               near_duplicates = int (length (survivors items)) -
                 int (length (filter (inserted D' l items) [0..<length items])),
               unique_items = int (length (filter (inserted D' l items) [0..<length items])),
               total_removed = int (length items) - int (length (survivors items)) +
                 (int (length (survivors items)) -
                  int (length (filter (inserted D' l items) [0..<length items]))) \<rparr> \<rparr>"
      by auto
    have "filter (inserted D' l items) [0..<length items] =
        filter (inserted D l items) [0..<length items]"
    proof (rule filter_cong [OF refl])
      fix n assume "n \<in> set [0..<length items]"
      then have "n \<le> length items" by simp
      from lsh_at_cong [OF assms(1,2) l l' this]
      show "inserted D' l items n = inserted D l items n"
        by (simp add: inserted_def signature_of_def create_minhash_cong [OF assms(1,2)])
    qed
    with m m' show ?thesis by simp
  next
    case False
    then obtain e where e: "MinHashLSH_init D t 128 = Inl e"
      unfolding valid_config_init by (cases "MinHashLSH_init D t 128") auto
    then have "MinHashLSH_init D' t 128 = Inl e"
      by (simp add: init_cong [OF assms(3)])
    with e show ?thesis by (simp add: main_init_error)
  qed
qed

theorem run_is_reproducible_witness:
  "hashfunc (example_lib\<lparr>first_of := length\<rparr>) = hashfunc example_lib \<and>
   permutation (example_lib\<lparr>first_of := length\<rparr>) = permutation example_lib \<and>
   optimal_param (example_lib\<lparr>first_of := length\<rparr>) = optimal_param example_lib \<and>
   main (example_lib\<lparr>first_of := length\<rparr>) 0.85 docs4 = main example_lib 0.85 docs4"
proof -
  have a: "hashfunc (example_lib\<lparr>first_of := length\<rparr>) = hashfunc example_lib"
    "permutation (example_lib\<lparr>first_of := length\<rparr>) = permutation example_lib"
    "optimal_param (example_lib\<lparr>first_of := length\<rparr>) = optimal_param example_lib"
    by simp_all
  from run_is_reproducible [OF a, of "0.85" docs4] have
    m: "main (example_lib\<lparr>first_of := length\<rparr>) 0.85 docs4 = main example_lib 0.85 docs4"
    by (rule conjunct1)
  show ?thesis
    by (intro conjI) (fact a m)+
qed

text \<open>
  C4. Every group's representative, the index that \<open>main\<close> keeps for it, is the key under
  which the group was created: its first member and its minimum. It stays so while later
  members are appended (the group only grows at its end), the retained indices are exactly
  the keys of the groups, each once, and no later member of a group is retained.
\<close>

theorem representative_is_first_member:
  assumes "MinHashLSH_init D t 128 = Inr l" and "n \<le> n'" and "n' \<le> length items"
    and "(k, g) \<in> set (near_dupe_groups (state_at D l items n))"
  shows "\<exists>out. main D t items = Inr out \<and>
     unique_indices out = map fst (near_dupe_groups (state_at D l items (length items))) \<and>
     distinct (unique_indices out) \<and>
     g \<noteq> [] \<and> hd g = k \<and> min_list g = k \<and> k \<in> set (unique_indices out) \<and>
     (\<forall>x \<in> set (tl g). k < x \<and> x \<notin> set (unique_indices out)) \<and>
     (\<exists>g'. (k, g') \<in> set (near_dupe_groups (state_at D l items n')) \<and> prefix g g' \<and>
           hd g' = k \<and> min_list g' = k \<and>
           (\<forall>x \<in> set (tl g'). k < x \<and> x \<notin> set (unique_indices out)))"
proof -
  have v: "valid_config D t"
    using assms(1) by (auto simp: valid_config_init)
  from main_result [OF v, of items] assms(1) obtain out where out: "main D t items = Inr out"
    and u: "unique_indices out = filter (inserted D l items) [0..<length items]"
    by force
  from assms(2,3) have n: "n \<le> length items" by simp
  note f = group_facts [OF assms(1) n assms(4)]
  from groups_grow [OF assms(1) assms(4) assms(2,3)] obtain g'
    where g': "(k, g') \<in> set (near_dupe_groups (state_at D l items n'))" "prefix g g'"
    by blast
  note f' = group_facts [OF assms(1) assms(3) g'(1)]
  have 1: "unique_indices out = map fst (near_dupe_groups (state_at D l items (length items)))"
    by (simp add: u groups_keys_at [OF assms(1)])
  have 2: "distinct (unique_indices out)" by (simp add: u)
  have 3: "k \<in> set (unique_indices out)"
    using f(4,5) n by (simp add: u)
  have 4: "\<forall>x \<in> set (tl g). k < x \<and> x \<notin> set (unique_indices out)"
    using f(6) by (simp add: u)
  have 5: "\<forall>x \<in> set (tl g'). k < x \<and> x \<notin> set (unique_indices out)"
    using f'(6) by (simp add: u)
  from g' f'(2,3) 5 have 6: "\<exists>g'. (k, g') \<in> set (near_dupe_groups (state_at D l items n')) \<and>
      prefix g g' \<and> hd g' = k \<and> min_list g' = k \<and>
      (\<forall>x \<in> set (tl g'). k < x \<and> x \<notin> set (unique_indices out))"
    by blast
  show ?thesis
    by (intro exI [of _ out] conjI) (fact out 1 2 f(1) f(2) f(3) 3 4 6)+
qed

theorem representative_is_first_member_witness:
  "MinHashLSH_init example_lib 0.85 128 = Inr example_index \<and> (1::nat) \<le> 4 \<and>
   4 \<le> length docs4 \<and>
   (0, [0]) \<in> set (near_dupe_groups (state_at example_lib example_index docs4 1)) \<and>
   (\<exists>out g'. main example_lib 0.85 docs4 = Inr out \<and> 0 \<in> set (unique_indices out) \<and>
      (0, g') \<in> set (near_dupe_groups (state_at example_lib example_index docs4 4)) \<and>
      prefix [0] g' \<and> min_list g' = 0)"
proof -
  have a: "(1::nat) \<le> 4" "4 \<le> length docs4" by (simp_all add: docs4_def)
  have "docs4 \<noteq> []" by (simp add: docs4_def)
  from groups_at_1 [OF init_example this]
  have b: "(0, [0]) \<in> set (near_dupe_groups (state_at example_lib example_index docs4 1))"
    by simp
  from representative_is_first_member [OF init_example a b] obtain out g'
    where c: "main example_lib 0.85 docs4 = Inr out" "0 \<in> set (unique_indices out)"
      "(0, g') \<in> set (near_dupe_groups (state_at example_lib example_index docs4 4))"
      "prefix [0] g'" "min_list g' = 0"
    by blast
  show ?thesis
    by (intro conjI exI [of _ out] exI [of _ g']) (fact init_example a b c)+
qed




text \<open>
  C1 (as amended). A row with fewer than three tokens has no shingle, so its signature is
  the initial one, every value \<open>2^32 - 1\<close>, the same for all such rows. Such a row that is the
  first with its \<open>sha256\<close> is retained exactly when no bucket of that signature is occupied
  when it arrives. When a later row with fewer than three tokens arrives, a bucket of that
  signature is occupied and the later row is not retained: if it is the first with its
  \<open>sha256\<close>, its query returns a candidate and it is appended to the group of a candidate;
  otherwise it is dropped as an exact duplicate.
\<close>

theorem short_rows_share_signature:
  assumes "MinHashLSH_init D t 128 = Inr l" and "i < j" and "j < length items"
    and "length (str_split (str_lower (item_text (items ! i)))) < 3"
    and "length (str_split (str_lower (item_text (items ! j)))) < 3"
    and "first_seen items i"
  shows "\<exists>out. main D t items = Inr out \<and>
     signature_of D items i = replicate 128 max_hash \<and>
     signature_of D items j = replicate 128 max_hash \<and>
     (i \<in> set (unique_indices out) \<longleftrightarrow>
        hits (lsh (state_at D l items i)) (replicate 128 max_hash) = {}) \<and>
     hits (lsh (state_at D l items j)) (replicate 128 max_hash) \<noteq> {} \<and>
     j \<notin> set (unique_indices out) \<and>
     (first_seen items j \<longrightarrow>
        (\<exists>k \<in> hits (lsh (state_at D l items j)) (replicate 128 max_hash).
          \<exists>g. (k, g) \<in> set (near_dupe_groups (state_at D l items j)) \<and>
              (k, g @ [j]) \<in> set (near_dupe_groups (state_at D l items (Suc j))))) \<and>
     (\<not> first_seen items j \<longrightarrow>
        state_at D l items (Suc j) =
          (state_at D l items j)\<lparr>exact_dupes := exact_dupes (state_at D l items j) + 1\<rparr>)"
proof -
  note l = assms(1)
  have v: "valid_config D t"
    using l by (auto simp: valid_config_init)
  from main_result [OF v, of items] l obtain out
    where out: "main D t items = Inr out"
      and u: "unique_indices out = filter (inserted D l items) [0..<length items]"
    by force
  from assms(2,3) have i: "i < length items" by simp
  have si: "signature_of D items i = replicate 128 max_hash"
    unfolding signature_of_def by (rule create_minhash_short [OF assms(4)])
  have sj: "signature_of D items j = replicate 128 max_hash"
    unfolding signature_of_def by (rule create_minhash_short [OF assms(5)])
  have ri: "i \<in> set (unique_indices out) \<longleftrightarrow>
      hits (lsh (state_at D l items i)) (replicate 128 max_hash) = {}"
    using i assms(6) by (simp add: u inserted_def si)
  from lsh_step(4) [OF l i assms(6)]
  have "hits (lsh (state_at D l items (Suc i))) (replicate 128 max_hash) \<noteq> {}"
    by (simp add: si)
  moreover have "extends (lsh (state_at D l items (Suc i))) (lsh (state_at D l items j))"
    using extends_at [OF l, of "Suc i" j items] assms(2,3) by simp
  ultimately have h: "hits (lsh (state_at D l items j)) (replicate 128 max_hash) \<noteq> {}"
    using hits_extends by blast
  then have "\<not> inserted D l items j"
    by (simp add: inserted_def sj)
  then have n: "j \<notin> set (unique_indices out)" by (simp add: u)
  have a: "first_seen items j \<longrightarrow>
        (\<exists>k \<in> hits (lsh (state_at D l items j)) (replicate 128 max_hash).
          \<exists>g. (k, g) \<in> set (near_dupe_groups (state_at D l items j)) \<and>
              (k, g @ [j]) \<in> set (near_dupe_groups (state_at D l items (Suc j))))"
    using joins_cluster [OF l assms(3)] h unfolding sj by blast
  have b: "\<not> first_seen items j \<longrightarrow>
        state_at D l items (Suc j) =
          (state_at D l items j)\<lparr>exact_dupes := exact_dupes (state_at D l items j) + 1\<rparr>"
    using step_dup [OF l assms(3)] by blast
  show ?thesis
    by (intro exI [of _ out] conjI) (fact out si sj ri h n a b)+
qed

theorem short_rows_share_signature_witness:
  "MinHashLSH_init example_lib 0.85 128 = Inr example_index \<and> (0::nat) < 1 \<and>
   1 < length short2 \<and>
   length (str_split (str_lower (item_text (short2 ! 0)))) < 3 \<and>
   length (str_split (str_lower (item_text (short2 ! 1)))) < 3 \<and>
   first_seen short2 0 \<and>
   (\<exists>out. main example_lib 0.85 short2 = Inr out \<and> 1 \<notin> set (unique_indices out) \<and>
      signature_of example_lib short2 1 = replicate 128 max_hash)"
proof -
  have a1: "(0::nat) < 1" "1 < length short2"
    by (simp_all add: short2_def)
  have a2: "first_seen short2 0"
    by (rule first_seen_0)
  note a = a1 short2_short a2
  from short_rows_share_signature [OF init_example a] obtain out
    where o: "main example_lib 0.85 short2 = Inr out" "1 \<notin> set (unique_indices out)"
      "signature_of example_lib short2 1 = replicate 128 max_hash"
    by blast
  show ?thesis
    by (intro conjI exI [of _ out]) (fact init_example a o)+
qed

end
